theory Spec2Isabelle
  imports Complex_Main "HOL-Library.Word"
begin

section \<open>Errors\<close>

text \<open>
  Every exception the modelled functions can raise is a value: the exceptions raised by
  the module itself (\<open>ValueError\<close>, \<open>AssertionError\<close>, \<open>NotImplementedError\<close>) and those
  raised by the numpy and Python primitives it calls.
\<close>

datatype error =
    AssertionError string
  | ValueError string
  | IndexError string
  | AxisError
  | AttributeError
  | TypeError
  | NotImplementedError

definition bind_err :: "error + 'a \<Rightarrow> ('a \<Rightarrow> error + 'b) \<Rightarrow> error + 'b" where
  "bind_err m f = (case m of Inl e \<Rightarrow> Inl e | Inr x \<Rightarrow> f x)"

section \<open>N-dimensional arrays\<close>

text \<open>
  A numpy array is its shape and its buffer in C order (row major); \<open>ravel\<close> is the offset
  of a multi-index in the buffer and \<open>unravel\<close> its inverse (\<open>np.unravel_index\<close>).
\<close>

record 'a ndarray =
  shape :: "nat list"
  data :: "'a list"

definition wf_array :: "'a ndarray \<Rightarrow> bool" where
  "wf_array a = (length (data a) = prod_list (shape a))"

definition ndim :: "'a ndarray \<Rightarrow> nat" where
  "ndim a = length (shape a)"

fun ravel :: "nat list \<Rightarrow> nat list \<Rightarrow> nat" where
  "ravel (n # ns) (i # js) = i * prod_list ns + ravel ns js"
| "ravel ns js = 0"

fun unravel :: "nat list \<Rightarrow> nat \<Rightarrow> nat list" where
  "unravel [] k = []"
| "unravel (n # ns) k = (k div prod_list ns) # unravel ns (k mod prod_list ns)"

definition valid_index :: "nat list \<Rightarrow> nat list \<Rightarrow> bool" where
  "valid_index sh idx = list_all2 (\<lambda>i n. i < n) idx sh"

definition elem :: "'a ndarray \<Rightarrow> nat list \<Rightarrow> 'a" where
  "elem a idx = data a ! ravel (shape a) idx"

definition tabulate :: "nat list \<Rightarrow> (nat list \<Rightarrow> 'a) \<Rightarrow> 'a ndarray" where
  "tabulate sh f = \<lparr>shape = sh, data = map (\<lambda>k. f (unravel sh k)) [0..<prod_list sh]\<rparr>"

text \<open>\<open>np.full(shape, fill_value)\<close>; a negative extent raises.\<close>

definition np_full :: "int list \<Rightarrow> 'a \<Rightarrow> error + 'a ndarray" where
  "np_full dims v =
     (if \<exists>d\<in>set dims. d < 0 then Inl (ValueError ''negative dimensions are not allowed'')
      else Inr \<lparr>shape = map nat dims, data = replicate (prod_list (map nat dims)) v\<rparr>)"

subsection \<open>Basic indexing\<close>

text \<open>
  An index is a slice object \<open>slice(start, stop)\<close> (either bound may be \<open>None\<close>) or an
  integer. Against an axis of extent \<open>n\<close> a slice resolves as Python's \<open>slice.indices\<close>
  does: a negative bound counts from the end, and both bounds are clamped to \<open>[0, n]\<close>.
  An integer out of range raises \<open>IndexError\<close>.
\<close>

datatype index = Slice "int option" "int option" | Idx int

definition slice_all :: index where
  "slice_all = Slice None None"

definition adjust :: "nat \<Rightarrow> int \<Rightarrow> nat" where
  "adjust n i = (if i < 0 then (if i + int n < 0 then 0 else nat (i + int n))
                 else if int n \<le> i then n else nat i)"

definition slice_start :: "nat \<Rightarrow> int option \<Rightarrow> nat" where
  "slice_start n a = (case a of None \<Rightarrow> 0 | Some i \<Rightarrow> adjust n i)"

definition slice_stop :: "nat \<Rightarrow> int option \<Rightarrow> nat" where
  "slice_stop n b = (case b of None \<Rightarrow> n | Some i \<Rightarrow> adjust n i)"

text \<open>The number of positions a slice selects on an axis of extent \<open>n\<close>.\<close>

fun slice_length :: "nat \<Rightarrow> index \<Rightarrow> nat" where
  "slice_length n (Slice a b) = slice_stop n b - slice_start n a"
| "slice_length n (Idx i) = 1"

text \<open>
  A slice stays inside an axis of extent \<open>n\<close> when its bounds, as written, are positions of
  the axis: \<open>0 \<le> start \<le> stop \<le> n\<close>, so that nothing is clamped or wrapped.
\<close>

fun slice_within :: "nat \<Rightarrow> index \<Rightarrow> bool" where
  "slice_within n (Slice a b) =
     ((case a of None \<Rightarrow> True | Some i \<Rightarrow> 0 \<le> i \<and> i \<le> int n) \<and>
      (case b of None \<Rightarrow> True | Some j \<Rightarrow> 0 \<le> j \<and> j \<le> int n) \<and>
      (case (a, b) of (Some i, Some j) \<Rightarrow> i \<le> j | _ \<Rightarrow> True))"
| "slice_within n (Idx i) = (0 \<le> i \<and> i < int n)"

datatype rix = RSlice nat nat | RIdx nat

fun resolve_index :: "nat \<Rightarrow> index \<Rightarrow> error + rix" where
  "resolve_index n (Slice a b) = Inr (RSlice (slice_start n a) (slice_stop n b - slice_start n a))"
| "resolve_index n (Idx i) =
     (let j = (if i < 0 then i + int n else i)
      in if 0 \<le> j \<and> j < int n then Inr (RIdx (nat j))
         else Inl (IndexError ''index out of bounds''))"

text \<open>An index tuple shorter than the rank selects the remaining axes whole.\<close>

fun resolve :: "nat list \<Rightarrow> index list \<Rightarrow> error + rix list" where
  "resolve [] [] = Inr []"
| "resolve [] (i # ixs) = Inl (IndexError ''too many indices for array'')"
| "resolve (n # ns) [] = bind_err (resolve ns []) (\<lambda>rs. Inr (RSlice 0 n # rs))"
| "resolve (n # ns) (i # ixs) =
     bind_err (resolve_index n i) (\<lambda>r. bind_err (resolve ns ixs) (\<lambda>rs. Inr (r # rs)))"

text \<open>The shape of the selected region: one axis per slice, none per integer.\<close>

fun region_shape :: "rix list \<Rightarrow> nat list" where
  "region_shape [] = []"
| "region_shape (RSlice s l # rs) = l # region_shape rs"
| "region_shape (RIdx k # rs) = region_shape rs"

text \<open>The position in the indexed array of position \<open>js\<close> of the region.\<close>

fun src_index :: "rix list \<Rightarrow> nat list \<Rightarrow> nat list" where
  "src_index [] js = []"
| "src_index (RIdx k # rs) js = k # src_index rs js"
| "src_index (RSlice s l # rs) (j # js) = (s + j) # src_index rs js"
| "src_index (RSlice s l # rs) [] = s # src_index rs []"

text \<open>The position in the region of position \<open>is\<close> of the array, when it lies in the region.\<close>

fun rel_index :: "rix list \<Rightarrow> nat list \<Rightarrow> nat list option" where
  "rel_index [] ks = Some []"
| "rel_index (RIdx k # rs) (i # ks) = (if i = k then rel_index rs ks else None)"
| "rel_index (RSlice s l # rs) (i # ks) =
     (if s \<le> i \<and> i < s + l then map_option ((#) (i - s)) (rel_index rs ks) else None)"
| "rel_index (r # rs) [] = None"

text \<open>\<open>a[ixs]\<close>\<close>

definition getitem :: "'a ndarray \<Rightarrow> index list \<Rightarrow> error + 'a ndarray" where
  "getitem a ixs =
     bind_err (resolve (shape a) ixs)
       (\<lambda>rs. Inr (tabulate (region_shape rs) (\<lambda>js. elem a (src_index rs js))))"

text \<open>
  Assignment broadcasts the value to the region: unit axes on the left of a value of
  higher rank are dropped, then the value's axes are aligned with the region's last
  axes, and each must have the region's extent or extent 1.
\<close>

fun strip_ones :: "nat \<Rightarrow> nat list \<Rightarrow> nat list" where
  "strip_ones k [] = []"
| "strip_ones k (v # vs) = (if k < length (v # vs) \<and> v = 1 then strip_ones k vs else v # vs)"

definition broadcastable :: "nat list \<Rightarrow> nat list \<Rightarrow> bool" where
  "broadcastable vs ts =
     (let vs' = strip_ones (length ts) vs
      in length vs' \<le> length ts \<and>
         list_all2 (\<lambda>v t. v = t \<or> v = 1) vs' (drop (length ts - length vs') ts))"

definition bcast_index :: "nat list \<Rightarrow> nat list \<Rightarrow> nat list" where
  "bcast_index vs js =
     (let vs' = strip_ones (length js) vs
      in replicate (length vs - length vs') 0 @
         map2 (\<lambda>v j. if v = 1 then 0 else j) vs' (drop (length js - length vs') js))"

text \<open>\<open>a[ixs] = v\<close>: the array after the assignment.\<close>

definition setitem :: "'a ndarray \<Rightarrow> index list \<Rightarrow> 'a ndarray \<Rightarrow> error + 'a ndarray" where
  "setitem a ixs v =
     bind_err (resolve (shape a) ixs)
       (\<lambda>rs. if broadcastable (shape v) (region_shape rs)
             then Inr (tabulate (shape a)
                    (\<lambda>ks. case rel_index rs ks of
                            None \<Rightarrow> elem a ks
                          | Some js \<Rightarrow> elem v (bcast_index (shape v) js)))
             else Inl (ValueError ''could not broadcast input array''))"

section \<open>SliceClipper\<close>

text \<open>\<open>np.clip(a, a_min, a_max)\<close> is \<open>minimum(maximum(a, a_min), a_max)\<close>.\<close>

definition np_clip :: "int \<Rightarrow> int \<Rightarrow> int \<Rightarrow> int" where
  "np_clip a lo hi = min (max a lo) hi"

text \<open>Python's truth value of a window width: \<open>None\<close> and \<open>0\<close> are false.\<close>

fun truthy :: "int option \<Rightarrow> bool" where
  "truthy None = False"
| "truthy (Some d) = (d \<noteq> 0)"

text \<open>One turn of the loop of \<open>copypaste_arrays\<close>.\<close>

fun copypaste_step ::
  "index list \<times> index list \<Rightarrow> nat \<times> nat \<times> nat \<times> int \<times> int \<times> int option
     \<Rightarrow> index list \<times> index list" where
  "copypaste_step (srcslices, destslices) (i, ss, ds, sc, dc, dm) =
     (if truthy dm then
        (let d1 = np_clip (the dm div 2) 0 (min sc dc);
             d2 = np_clip (the dm div 2 + 1) 0 (min (int ss - sc) (int ds - dc))
         in (srcslices[i := Slice (Some (sc - d1)) (Some (sc + d2))],
             destslices[i := Slice (Some (dc - d1)) (Some (dc + d2))]))
      else (srcslices, destslices))"

text \<open>
  \<open>copypaste_arrays(src, dest, srccenter, destcenter, dims)\<close>: the loop runs over the
  \<open>zip\<close> of the six sequences, so it stops with the shortest.
\<close>

definition copypaste_arrays ::
  "'a ndarray \<Rightarrow> 'a ndarray \<Rightarrow> int list \<Rightarrow> int list \<Rightarrow> int option list
     \<Rightarrow> index list \<times> index list" where
  "copypaste_arrays src dest srccenter destcenter dims =
     foldl copypaste_step
       (replicate (ndim src) slice_all, replicate (ndim dest) slice_all)
       (zip [0..<ndim src] (zip (shape src) (zip (shape dest)
          (zip srccenter (zip destcenter dims)))))"

subsection \<open>The body of \<open>copypaste_arrays\<close> on a heap\<close>

text \<open>
  Python passes \<open>src\<close> and \<open>dest\<close> by reference, and the body could store into them. To see
  what the body stores, it is also modelled on a heap of objects: an address is a position
  of the heap, \<open>[slice(None)] * n\<close> allocates a new list, and \<open>srcslices[i] = ...\<close> stores into
  the object at the address of \<open>srcslices\<close>. Reading \<open>ndim\<close> or \<open>shape\<close> of an object that is
  not an array raises \<open>AttributeError\<close>.
\<close>

datatype 'a object = Array "'a ndarray" | PyList "index list"

type_synonym 'a heap = "'a object list"

definition alloc :: "'a heap \<Rightarrow> 'a object \<Rightarrow> nat \<times> 'a heap" where
  "alloc h ob = (length h, h @ [ob])"

text \<open>\<open>xs[i] = v\<close> for the list \<open>xs\<close> at address \<open>a\<close>.\<close>

definition list_store :: "'a heap \<Rightarrow> nat \<Rightarrow> nat \<Rightarrow> index \<Rightarrow> 'a heap" where
  "list_store h a i v =
     (case h ! a of PyList xs \<Rightarrow> h[a := PyList (xs[i := v])] | Array x \<Rightarrow> h)"

fun copypaste_heap_step ::
  "nat \<Rightarrow> nat \<Rightarrow> 'a heap \<Rightarrow> nat \<times> nat \<times> nat \<times> int \<times> int \<times> int option \<Rightarrow> 'a heap" where
  "copypaste_heap_step srcslices destslices h (i, ss, ds, sc, dc, dm) =
     (if truthy dm then
        (let d1 = np_clip (the dm div 2) 0 (min sc dc);
             d2 = np_clip (the dm div 2 + 1) 0 (min (int ss - sc) (int ds - dc));
             h = list_store h srcslices i (Slice (Some (sc - d1)) (Some (sc + d2)));
             h = list_store h destslices i (Slice (Some (dc - d1)) (Some (dc + d2)))
         in h)
      else h)"

text \<open>
  The call on a heap \<open>h\<close>, with \<open>src\<close> and \<open>dest\<close> the addresses of the two arrays: the result is
  the pair of tuples and the heap the body leaves.
\<close>

definition copypaste_arrays_heap ::
  "'a heap \<Rightarrow> nat \<Rightarrow> nat \<Rightarrow> int list \<Rightarrow> int list \<Rightarrow> int option list
     \<Rightarrow> error + (index list \<times> index list) \<times> 'a heap" where
  "copypaste_arrays_heap h src dest srccenter destcenter dims =
     (case (h ! src, h ! dest) of
        (Array s, Array d) \<Rightarrow>
          (let (srcslices, h) = alloc h (PyList (replicate (ndim s) slice_all));
               (destslices, h) = alloc h (PyList (replicate (ndim d) slice_all));
               h = foldl (copypaste_heap_step srcslices destslices) h
                     (zip [0..<ndim s] (zip (shape s) (zip (shape d)
                        (zip srccenter (zip destcenter dims)))))
           in (case (h ! srcslices, h ! destslices) of
                 (PyList xs, PyList ys) \<Rightarrow> Inr ((xs, ys), h)
               | _ \<Rightarrow> Inl TypeError))
      | _ \<Rightarrow> Inl AttributeError)"

text \<open>
  The slices the loop writes at position \<open>j\<close>, and the number of turns the loop makes
  (the length of the shortest of the zipped sequences).
\<close>

definition src_slice :: "int list \<Rightarrow> int list \<Rightarrow> nat list \<Rightarrow> nat list \<Rightarrow> int option list \<Rightarrow> nat \<Rightarrow> index" where
  "src_slice scs dcs sss dss dms j =
     Slice (Some (scs ! j - np_clip (the (dms ! j) div 2) 0 (min (scs ! j) (dcs ! j))))
           (Some (scs ! j + np_clip (the (dms ! j) div 2 + 1) 0
                    (min (int (sss ! j) - scs ! j) (int (dss ! j) - dcs ! j))))"

definition dest_slice :: "int list \<Rightarrow> int list \<Rightarrow> nat list \<Rightarrow> nat list \<Rightarrow> int option list \<Rightarrow> nat \<Rightarrow> index" where
  "dest_slice scs dcs sss dss dms j =
     Slice (Some (dcs ! j - np_clip (the (dms ! j) div 2) 0 (min (scs ! j) (dcs ! j))))
           (Some (dcs ! j + np_clip (the (dms ! j) div 2 + 1) 0
                    (min (int (sss ! j) - scs ! j) (int (dss ! j) - dcs ! j))))"

definition zip_len :: "'a ndarray \<Rightarrow> 'a ndarray \<Rightarrow> int list \<Rightarrow> int list \<Rightarrow> int option list \<Rightarrow> nat" where
  "zip_len src dest srccenter destcenter dims =
     min (ndim src) (min (ndim dest) (min (length srccenter) (min (length destcenter) (length dims))))"

text \<open>A list of results is a result: the first error, or all the values.\<close>

fun sequence_err :: "(error + 'a) list \<Rightarrow> error + 'a list" where
  "sequence_err [] = Inr []"
| "sequence_err (x # xs) = bind_err x (\<lambda>y. bind_err (sequence_err xs) (\<lambda>ys. Inr (y # ys)))"

text \<open>
  \<open>resize_center(img, *resize_dims, fill_value)\<close>. A requested extent that is \<open>None\<close> or
  \<open>0\<close> is replaced by the extent of \<open>img\<close> on that axis (\<open>resize_dims[i] or img.shape[i]\<close>;
  \<open>img.shape[i]\<close> is read only then, and raises when \<open>img\<close> has no such axis).
\<close>

definition resize_center :: "'a ndarray \<Rightarrow> int option list \<Rightarrow> 'a \<Rightarrow> error + 'a ndarray" where
  "resize_center img resize_dims fill_value =
     bind_err
       (sequence_err
          (map (\<lambda>i. if truthy (resize_dims ! i) then Inr (the (resize_dims ! i))
                    else if i < ndim img then Inr (int (shape img ! i))
                    else Inl (IndexError ''tuple index out of range''))
             [0..<length resize_dims]))
       (\<lambda>resize_dims.
          bind_err (np_full resize_dims fill_value)
            (\<lambda>dest.
               let half_img_shape = map (\<lambda>n. int n div 2) (shape img);
                   half_dest_shape = map (\<lambda>n. int n div 2) (shape dest);
                   (srcslices, destslices) =
                      copypaste_arrays img dest half_img_shape half_dest_shape
                        (map Some resize_dims)
               in bind_err (getitem img srcslices) (\<lambda>v. setitem dest destslices v)))"

text \<open>
  A window of an array: per axis an offset and a length. \<open>in_window\<close> says that a position
  lies in the window.
\<close>

definition in_window :: "nat list \<Rightarrow> nat list \<Rightarrow> nat list \<Rightarrow> bool" where
  "in_window offs lens ks = list_all2 (\<lambda>k (off, l). off \<le> k \<and> k < off + l) ks (zip offs lens)"

text \<open>
  Where the centered copy sits on an axis: an array of extent \<open>s\<close> centered in one of extent
  \<open>t\<close> starts at \<open>t div 2 - s div 2\<close> (both centers are the half extents).
\<close>

definition center_offsets :: "nat list \<Rightarrow> nat list \<Rightarrow> nat list" where
  "center_offsets ss ts = map2 (\<lambda>s t. t div 2 - s div 2) ss ts"

text \<open>The extents \<open>resize_center\<close> allocates: a requested extent \<open>0\<close> keeps the array's own.\<close>

definition resolved_dims :: "nat list \<Rightarrow> nat list \<Rightarrow> nat list" where
  "resolved_dims tgt sh = map2 (\<lambda>t s. if t = 0 then s else t) tgt sh"

section \<open>CenterSampler\<close>

text \<open>
  The random source is an object with a state and two draws, \<open>rand()\<close> (a float in
  \<open>[0, 1)\<close>) and \<open>randint(n)\<close> (an integer in \<open>[0, n)\<close>); each draw returns its value and the
  next state. Floats are read as the rationals they stand for.
\<close>

record 's random_source =
  rs_rand :: "'s \<Rightarrow> rat \<times> 's"
  rs_randint :: "nat \<Rightarrow> 's \<Rightarrow> nat \<times> 's"

definition rng_ok :: "'s random_source \<Rightarrow> bool" where
  "rng_ok R = ((\<forall>s. 0 \<le> fst (rs_rand R s) \<and> fst (rs_rand R s) < 1) \<and>
              (\<forall>n s. 0 < n \<longrightarrow> fst (rs_randint R n s) < n))"

datatype warning = UnbalancedWarning nat nat

text \<open>
  \<open>astype(np.uint16)\<close> of a float: the value is truncated towards zero and kept modulo
  \<open>2 ^ 16\<close>, which is what the conversion gives for a value beyond the range of the type.
\<close>

definition astype_uint16 :: "rat \<Rightarrow> 16 word" where
  "astype_uint16 x = word_of_int (if 0 \<le> x then \<lfloor>x\<rfloor> else \<lceil>x\<rceil>)"

text \<open>
  The range of valid centers: \<open>valid_start = np.floor_divide(size, 2)\<close>,
  \<open>valid_end = np.subtract(max_size + 1, size / 2).astype(np.uint16)\<close>, and the loop that
  adds one to \<open>valid_end[i]\<close> where it equals \<open>valid_start[i]\<close>.
\<close>

definition valid_range :: "nat list \<Rightarrow> int list \<Rightarrow> int list \<times> 16 word list" where
  "valid_range max_size size' =
     (let valid_start = map (\<lambda>s. s div 2) size';
          valid_end = map2 (\<lambda>m s. astype_uint16 (of_nat m + 1 - of_int s / 2)) max_size size';
          valid_end = map2 (\<lambda>vs ve. if vs = uint ve then ve + 1 else ve) valid_start valid_end
      in (valid_start, valid_end))"

text \<open>
  \<open>np.any(x, axis=0).ravel()\<close> for an array of truth values: position \<open>k\<close> of the result is
  true when some channel is true at spatial position \<open>k\<close>. For an array of rank 0 numpy
  accepts \<open>axis=0\<close> and the result is the one truth value of the array.
\<close>

definition np_any_axis0 :: "bool ndarray \<Rightarrow> error + bool list" where
  "np_any_axis0 x =
     (case shape x of
        [] \<Rightarrow> Inr [data x ! 0]
      | c # sp \<Rightarrow>
          Inr (map (\<lambda>k. list_ex (\<lambda>ch. data x ! (ch * prod_list sp + k)) [0..<c])
                 [0..<prod_list sp]))"

definition map_array :: "('a \<Rightarrow> 'b) \<Rightarrow> 'a ndarray \<Rightarrow> 'b ndarray" where
  "map_array f a = \<lparr>shape = shape a, data = map f (data a)\<rparr>"

text \<open>\<open>np.nonzero(bs)[0]\<close> for a flat array of truth values: the positions that are true.\<close>

definition nonzero :: "bool list \<Rightarrow> nat list" where
  "nonzero bs = filter (\<lambda>i. bs ! i) [0..<length bs]"

text \<open>\<open>np.logical_and\<close> of two flat arrays, with numpy's broadcasting of a length-1 operand.\<close>

definition logical_and :: "bool list \<Rightarrow> bool list \<Rightarrow> error + bool list" where
  "logical_and xs ys =
     (if length xs = length ys then Inr (map2 (\<and>) xs ys)
      else if length xs = 1 then Inr (map (\<lambda>y. xs ! 0 \<and> y) ys)
      else if length ys = 1 then Inr (map (\<lambda>x. x \<and> ys ! 0) xs)
      else Inl (ValueError ''operands could not be broadcast together''))"

text \<open>The foreground and background index sets.\<close>

definition fg_bg_indicies ::
  "('a::zero) ndarray \<Rightarrow> ('b::linorder) ndarray option \<Rightarrow> 'b \<Rightarrow> error + nat list \<times> nat list" where
  "fg_bg_indicies label image' image_threshold =
     bind_err (np_any_axis0 (map_array (\<lambda>v. v \<noteq> 0) label))
       (\<lambda>label_flat.
          let fg_indicies = nonzero label_flat
          in bind_err
               (case image' of
                  Some img \<Rightarrow>
                    bind_err (np_any_axis0 (map_array (\<lambda>v. image_threshold < v) img))
                      (\<lambda>img_flat.
                         bind_err (logical_and img_flat (map Not label_flat))
                           (\<lambda>m. Inr (nonzero m)))
                | None \<Rightarrow> Inr (nonzero (map Not label_flat)))
               (\<lambda>bg_indicies. Inr (fg_indicies, bg_indicies)))"

text \<open>\<open>np.unravel_index(k, shape)\<close>; an index beyond the size of the shape raises.\<close>

definition unravel_index :: "nat \<Rightarrow> nat list \<Rightarrow> error + nat list" where
  "unravel_index k sh =
     (if k < prod_list sh then Inr (unravel sh k)
      else Inl (ValueError ''index is out of bounds for array''))"

text \<open>
  The shift of a drawn center into the valid range. Both tests read the drawn coordinate
  \<open>c\<close>; \<open>valid_end[i] - 1\<close> is computed on integers.
\<close>

definition shift_center :: "int list \<Rightarrow> 16 word list \<Rightarrow> nat list \<Rightarrow> int list" where
  "shift_center valid_start valid_end center =
     map (\<lambda>(i, c).
            let center_i = int c;
                center_i = (if int c < valid_start ! i then valid_start ! i else center_i);
                center_i = (if uint (valid_end ! i) \<le> int c then uint (valid_end ! i) - 1
                            else center_i)
            in center_i)
       (enumerate 0 center)"

text \<open>The sampling loop, one turn per sample.\<close>

fun sample_centers ::
  "'s random_source \<Rightarrow> nat list \<Rightarrow> int list \<Rightarrow> 16 word list \<Rightarrow> nat list \<Rightarrow> nat list \<Rightarrow> rat
     \<Rightarrow> nat \<Rightarrow> 's \<Rightarrow> error + int list list \<times> 's" where
  "sample_centers R label_shape valid_start valid_end fg_indicies bg_indicies pos_ratio 0 s =
     Inr ([], s)"
| "sample_centers R label_shape valid_start valid_end fg_indicies bg_indicies pos_ratio (Suc n) s =
     (let (u, s1) = rs_rand R s;
          indicies_to_use = (if u < pos_ratio then fg_indicies else bg_indicies)
      in if length indicies_to_use = 0 then Inl (ValueError ''randint: high <= 0'')
         else
           (let (random_int, s2) = rs_randint R (length indicies_to_use) s1
            in if length indicies_to_use \<le> random_int then Inl (IndexError ''index out of bounds'')
               else
                 bind_err (unravel_index (indicies_to_use ! random_int) label_shape)
                   (\<lambda>center.
                      let center = tl center;
                          center_ori = shift_center valid_start valid_end center
                      in bind_err
                           (sample_centers R label_shape valid_start valid_end
                              fg_indicies bg_indicies pos_ratio n s2)
                           (\<lambda>(centers, s'). Inr (center_ori # centers, s')))))"

text \<open>
  \<open>generate_pos_neg_label_crop_centers\<close>. The result is the list of centers, the warnings
  emitted and the state of the random source after the draws.
\<close>

definition generate_pos_neg_label_crop_centers ::
  "'s random_source \<Rightarrow> ('a::zero) ndarray \<Rightarrow> int list \<Rightarrow> int \<Rightarrow> rat
     \<Rightarrow> ('b::linorder) ndarray option \<Rightarrow> 'b \<Rightarrow> 's
     \<Rightarrow> error + int list list \<times> warning list \<times> 's" where
  "generate_pos_neg_label_crop_centers R label size' num_samples pos_ratio image' image_threshold s =
     (let max_size = tl (shape label)
      in if length max_size \<noteq> length size'
         then Inl (AssertionError ''expected size does not match label dim.'')
         else if \<not> list_all2 (\<lambda>m sz. 0 \<le> int m - sz) max_size size'
         then Inl (AssertionError ''proposed roi is larger than image itself.'')
         else
           (let (valid_start, valid_end) = valid_range max_size size'
            in bind_err (fg_bg_indicies label image' image_threshold)
                 (\<lambda>(fg_indicies, bg_indicies).
                    if fg_indicies = [] \<and> bg_indicies = []
                    then Inl (ValueError ''no sampling location available.'')
                    else
                      (let (pos_ratio, warnings) =
                             (if fg_indicies = [] \<or> bg_indicies = []
                              then (if fg_indicies = [] then 0 else 1,
                                    [UnbalancedWarning (length fg_indicies) (length bg_indicies)])
                              else (pos_ratio, []))
                       in bind_err
                            (sample_centers R (shape label) valid_start valid_end
                               fg_indicies bg_indicies pos_ratio (nat num_samples) s)
                            (\<lambda>(centers, s'). Inr (centers, warnings, s'))))))"

subsection \<open>Inputs for the examples\<close>

text \<open>
  A random source for the examples: its state is a counter, \<open>rand()\<close> returns the last
  decimal digit of the counter as tenths, \<open>randint(n)\<close> the counter modulo \<open>n\<close>.
\<close>

definition example_source :: "nat random_source" where
  "example_source = \<lparr>rs_rand = (\<lambda>s. (of_nat (s mod 10) / 10, Suc s)),
                     rs_randint = (\<lambda>n s. (s mod n, Suc s))\<rparr>"

text \<open>
  A label of shape \<open>(1, 3, 4)\<close> with one foreground voxel, and an image of the same shape
  that is nowhere above the threshold 0.
\<close>

definition example_label :: "int ndarray" where
  "example_label = \<lparr>shape = [1, 3, 4], data = [0, 0, 0, 0, 0, 0, 1, 0, 0, 0, 0, 0]\<rparr>"

definition example_image :: "int ndarray" where
  "example_image = \<lparr>shape = [1, 3, 4], data = [0, 0, 0, 0, 0, 0, 0, 0, 0, 0, 0, 0]\<rparr>"

text \<open>
  A label of shape \<open>(1, m)\<close> whose only foreground voxel is at position \<open>a\<close>; and the one
  with \<open>m = 140000\<close> and \<open>a = 66000\<close>.
\<close>

definition single_voxel :: "nat \<Rightarrow> nat \<Rightarrow> int ndarray" where
  "single_voxel m a = \<lparr>shape = [1, m], data = replicate a 0 @ [1] @ replicate (m - a - 1) 0\<rparr>"

definition wide_label :: "int ndarray" where
  "wide_label = single_voxel 140000 66000"

section \<open>AffineBuilder\<close>

text \<open>
  Matrices are arrays of rank 2 over the reals: the floating-point entries are read as the
  real numbers they stand for, and \<open>np.sin\<close>, \<open>np.cos\<close> as the real functions.
  \<open>np_array\<close> is \<open>np.array\<close> of a nested list literal of rows of equal length,
  \<open>np_scalar\<close> an array of rank 0.
\<close>

definition np_array :: "'a list list \<Rightarrow> 'a ndarray" where
  "np_array rows =
     \<lparr>shape = [length rows, (case rows of [] \<Rightarrow> 0 | r # rs \<Rightarrow> length r)], data = concat rows\<rparr>"

definition np_scalar :: "'a \<Rightarrow> 'a ndarray" where
  "np_scalar x = \<lparr>shape = [], data = [x]\<rparr>"

text \<open>\<open>np.eye(n)\<close>; a negative \<open>n\<close> raises.\<close>

definition np_eye :: "int \<Rightarrow> error + real ndarray" where
  "np_eye n =
     (if n < 0 then Inl (ValueError ''negative dimensions are not allowed'')
      else Inr (tabulate [nat n, nat n] (\<lambda>ks. if ks ! 0 = ks ! 1 then 1 else 0)))"

text \<open>\<open>np.diag(v)\<close> of a list: the square matrix with \<open>v\<close> on its diagonal.\<close>

definition np_diag :: "real list \<Rightarrow> real ndarray" where
  "np_diag v =
     tabulate [length v, length v] (\<lambda>ks. if ks ! 0 = ks ! 1 then v ! (ks ! 0) else 0)"

text \<open>
  \<open>a @ b\<close> for two matrices over the reals; the inner extents must agree. It is the product
  \<open>create_rotate\<close> takes of its elementary rotations, whose entries lie in \<open>[-1, 1]\<close>, so
  that the float64 product cannot overflow and differs from the real one by rounding only.
  Products of arbitrary matrices are taken in float64, by \<open>matmul_f64\<close> below. The module
  multiplies matrices only, so operands of another rank are not given a product here.
\<close>

definition matmul :: "real ndarray \<Rightarrow> real ndarray \<Rightarrow> error + real ndarray" where
  "matmul a b =
     (case (shape a, shape b) of
        ([m, n], [n', p]) \<Rightarrow>
          if n = n'
          then Inr (tabulate [m, p]
                 (\<lambda>ks. sum_list (map (\<lambda>k. elem a [ks ! 0, k] * elem b [k, ks ! 1]) [0..<n])))
          else Inl (ValueError ''matmul: mismatch in the core dimension'')
      | _ \<Rightarrow> Inl (ValueError ''matmul: operands are not matrices''))"

text \<open>\<open>affine @ m\<close> where \<open>affine\<close> may still be \<open>None\<close>, which has no product.\<close>

fun matmul_opt :: "real ndarray option \<Rightarrow> real ndarray \<Rightarrow> error + real ndarray option" where
  "matmul_opt None m = Inl TypeError"
| "matmul_opt (Some a) m = bind_err (matmul a m) (\<lambda>r. Inr (Some r))"

text \<open>
  \<open>create_rotate(spatial_dims, radians)\<close>; \<open>radians\<close> is the tuple \<open>ensure_tuple\<close> has made of
  the argument. The function returns an array, returns \<open>None\<close> (the initial value of
  \<open>affine\<close>, when no branch assigns it), or raises.
\<close>

definition create_rotate :: "int \<Rightarrow> real list \<Rightarrow> error + real ndarray option" where
  "create_rotate spatial_dims radians =
     (if spatial_dims = 2 \<and> 1 \<le> length radians then
        (let sin' = sin (radians ! 0); cos' = cos (radians ! 0)
         in Inr (Some (np_array [[cos', - sin', 0], [sin', cos', 0], [0, 0, 1]])))
      else if spatial_dims = 3 then
        (let affine = None;
             affine =
               (if 1 \<le> length radians then
                  (let sin' = sin (radians ! 0); cos' = cos (radians ! 0)
                   in Some (np_array [[1, 0, 0, 0],
                                      [0, cos', - sin', 0],
                                      [0, sin', cos', 0],
                                      [0, 0, 0, 1]]))
                else affine)
         in bind_err
              (if 2 \<le> length radians then
                 (let sin' = sin (radians ! 1); cos' = cos (radians ! 1)
                  in matmul_opt affine (np_array [[cos', 0, sin', 0],
                                                  [0, 1, 0, 0],
                                                  [- sin', 0, cos', 0],
                                                  [0, 0, 0, 1]]))
               else Inr affine)
              (\<lambda>affine.
                 if 3 \<le> length radians then
                   (let sin' = sin (radians ! 2); cos' = cos (radians ! 2)
                    in matmul_opt affine (np_array [[cos', - sin', 0, 0],
                                                    [sin', cos', 0, 0],
                                                    [0, 0, 1, 0],
                                                    [0, 0, 0, 1]]))
                 else Inr affine))
      else Inl (ValueError ''create_rotate got spatial_dims, radians''))"

text \<open>\<open>while len(xs) < n: xs.append(v)\<close>\<close>

function pad_while :: "int \<Rightarrow> 'a \<Rightarrow> 'a list \<Rightarrow> 'a list" where
  "pad_while n v xs = (if int (length xs) < n then pad_while n v (xs @ [v]) else xs)"
  by pat_completeness auto
termination
  by (relation "measure (\<lambda>(n, v, xs). nat (n - int (length xs)))") auto

declare pad_while.simps [simp del]

text \<open>Python's \<open>xs[:n]\<close>: a negative \<open>n\<close> counts from the end.\<close>

definition py_take :: "int \<Rightarrow> 'a list \<Rightarrow> 'a list" where
  "py_take n xs = (if n < 0 then take (length xs - nat (- n)) xs else take (nat n) xs)"

definition create_shear :: "int \<Rightarrow> real list \<Rightarrow> error + real ndarray" where
  "create_shear spatial_dims coefs =
     (if spatial_dims = 2 then
        (let coefs = pad_while 2 0 coefs
         in Inr (np_array [[1, coefs ! 0, 0],
                           [coefs ! 1, 1, 0],
                           [0, 0, 1]]))
      else if spatial_dims = 3 then
        (let coefs = pad_while 6 0 coefs
         in Inr (np_array [[1, coefs ! 0, coefs ! 1, 0],
                           [coefs ! 2, 1, coefs ! 3, 0],
                           [coefs ! 4, coefs ! 5, 1, 0],
                           [0, 0, 0, 1]]))
      else Inl NotImplementedError)"

definition create_scale :: "int \<Rightarrow> real list \<Rightarrow> real ndarray" where
  "create_scale spatial_dims scaling_factor =
     (let scaling_factor = pad_while spatial_dims 1 scaling_factor
      in np_diag (py_take spatial_dims scaling_factor @ [1]))"

text \<open>
  \<open>create_translate\<close>: the loop stores \<open>shift[i]\<close> at \<open>affine[i, spatial_dims]\<close>, one turn per
  element of \<open>shift[:spatial_dims]\<close>.
\<close>

definition create_translate :: "int \<Rightarrow> real list \<Rightarrow> error + real ndarray" where
  "create_translate spatial_dims shift =
     bind_err (np_eye (spatial_dims + 1))
       (\<lambda>affine.
          foldl (\<lambda>acc (i, a).
                   bind_err acc
                     (\<lambda>affine. setitem affine [Idx (int i), Idx spatial_dims] (np_scalar a)))
            (Inr affine) (enumerate 0 (py_take spatial_dims shift)))"

text \<open>
  \<open>to_affine_nd(r, affine)\<close>. Both arguments go through \<open>np.array(..., dtype=float64)\<close>; a
  number \<open>r\<close> becomes an array of rank 0, whose value \<open>astype(int)\<close> truncates to a 64-bit
  integer (a value beyond the range of the type becomes the least integer of the type).
  That integer is always finite, so of the two tests \<open>not np.isfinite(sr) or sr < 0\<close> only
  the second can hold.
\<close>

definition astype_int :: "real \<Rightarrow> int" where
  "astype_int x =
     (let t = (if 0 \<le> x then \<lfloor>x\<rfloor> else \<lceil>x\<rceil>)
      in if - (2 ^ 63) \<le> t \<and> t < 2 ^ 63 then t else - (2 ^ 63))"

definition py_len :: "'a ndarray \<Rightarrow> nat" where
  "py_len a = shape a ! 0"

definition to_affine_nd :: "real ndarray \<Rightarrow> real ndarray \<Rightarrow> error + real ndarray" where
  "to_affine_nd r affine =
     (if ndim affine \<noteq> 2 then Inl (ValueError ''input affine must have two dimensions'')
      else
        bind_err
          (let new_affine = r
           in if ndim new_affine = 0 then
                (let sr = astype_int (elem new_affine [])
                 in if sr < 0 then Inl (ValueError ''r must be postive.'')
                    else np_eye (sr + 1))
              else Inr new_affine)
          (\<lambda>new_affine.
             let d = min (int (py_len new_affine) - 1) (int (py_len affine) - 1)
             in bind_err (getitem affine [Slice None (Some d), Slice None (Some d)])
                  (\<lambda>block.
                     bind_err (setitem new_affine [Slice None (Some d), Slice None (Some d)] block)
                       (\<lambda>new_affine.
                          bind_err (getitem affine [Slice None (Some d), Idx (- 1)])
                            (\<lambda>col. setitem new_affine [Slice None (Some d), Idx (- 1)] col)))))"

text \<open>
  A matrix over the reals has the bottom row \<open>[0, ..., 0, 1]\<close>: it has a last row, and that
  row is zero but for its last entry, which is one.
\<close>

definition affine_bottom_row :: "real ndarray \<Rightarrow> bool" where
  "affine_bottom_row M =
     (case shape M of
        [m, n] \<Rightarrow> 0 < m \<and> 0 < n \<and>
                  list_all (\<lambda>j. elem M [m - 1, j] = (if j = n - 1 then 1 else 0)) [0..<n]
      | _ \<Rightarrow> False)"

subsection \<open>Products in float64\<close>

text \<open>
  The entries of a builder matrix are arguments of the call, zeros, ones, sines and
  cosines; a product of builder matrices multiplies and adds them, and in float64 a product
  or a sum beyond the largest float is an infinity, and \<open>0 * inf\<close> and \<open>inf - inf\<close> are \<open>nan\<close>.
  A float64 value is a finite real, one of the two infinities, or \<open>nan\<close>; arithmetic is
  exact where the exact result is within range (rounding is not modelled) and follows
  IEEE 754 elsewhere.
\<close>

datatype f64 = Fin real | PosInf | NegInf | NaN

definition f64_max :: real where
  "f64_max = (2 ^ 53 - 1) * 2 ^ 971"

definition f64_of_real :: "real \<Rightarrow> f64" where
  "f64_of_real x = (if f64_max < x then PosInf else if x < - f64_max then NegInf else Fin x)"

fun f64_mult :: "f64 \<Rightarrow> f64 \<Rightarrow> f64" where
  "f64_mult NaN y = NaN"
| "f64_mult x NaN = NaN"
| "f64_mult (Fin x) (Fin y) = f64_of_real (x * y)"
| "f64_mult (Fin x) PosInf = (if x = 0 then NaN else if 0 < x then PosInf else NegInf)"
| "f64_mult (Fin x) NegInf = (if x = 0 then NaN else if 0 < x then NegInf else PosInf)"
| "f64_mult PosInf (Fin y) = (if y = 0 then NaN else if 0 < y then PosInf else NegInf)"
| "f64_mult NegInf (Fin y) = (if y = 0 then NaN else if 0 < y then NegInf else PosInf)"
| "f64_mult PosInf PosInf = PosInf"
| "f64_mult PosInf NegInf = NegInf"
| "f64_mult NegInf PosInf = NegInf"
| "f64_mult NegInf NegInf = PosInf"

fun f64_add :: "f64 \<Rightarrow> f64 \<Rightarrow> f64" where
  "f64_add NaN y = NaN"
| "f64_add x NaN = NaN"
| "f64_add (Fin x) (Fin y) = f64_of_real (x + y)"
| "f64_add (Fin x) PosInf = PosInf"
| "f64_add (Fin x) NegInf = NegInf"
| "f64_add PosInf (Fin y) = PosInf"
| "f64_add NegInf (Fin y) = NegInf"
| "f64_add PosInf PosInf = PosInf"
| "f64_add NegInf NegInf = NegInf"
| "f64_add PosInf NegInf = NaN"
| "f64_add NegInf PosInf = NaN"

text \<open>
  \<open>a @ b\<close> for two float64 matrices: each entry is the sum, accumulated from zero, of the
  products along the inner axis.
\<close>

definition matmul_f64 :: "f64 ndarray \<Rightarrow> f64 ndarray \<Rightarrow> error + f64 ndarray" where
  "matmul_f64 a b =
     (case (shape a, shape b) of
        ([m, n], [n', p]) \<Rightarrow>
          if n = n'
          then Inr (tabulate [m, p]
                 (\<lambda>ks. foldl (\<lambda>acc k. f64_add acc (f64_mult (elem a [ks ! 0, k]) (elem b [k, ks ! 1])))
                         (Fin 0) [0..<n]))
          else Inl (ValueError ''matmul: mismatch in the core dimension'')
      | _ \<Rightarrow> Inl (ValueError ''matmul: operands are not matrices''))"

text \<open>A builder's matrix with its entries read as float64 values.\<close>

definition as_f64 :: "real ndarray \<Rightarrow> f64 ndarray" where
  "as_f64 a = tabulate (shape a) (\<lambda>ks. f64_of_real (elem a ks))"

text \<open>A float64 matrix has the bottom row \<open>[0, ..., 0, 1]\<close>.\<close>

definition bottom_row_f64 :: "f64 ndarray \<Rightarrow> bool" where
  "bottom_row_f64 M =
     (case shape M of
        [m, n] \<Rightarrow> 0 < m \<and> 0 < n \<and>
                  list_all (\<lambda>j. elem M [m - 1, j] = (if j = n - 1 then Fin 1 else Fin 0)) [0..<n]
      | _ \<Rightarrow> False)"

text \<open>No entry of the array is an infinity or \<open>nan\<close>.\<close>

fun is_fin :: "f64 \<Rightarrow> bool" where
  "is_fin (Fin x) = True"
| "is_fin v = False"

definition all_finite :: "f64 ndarray \<Rightarrow> bool" where
  "all_finite a = list_all (\<lambda>k. is_fin (data a ! k)) [0..<prod_list (shape a)]"

text \<open>
  The matrices composed purely from the builder primitives: what a builder returns, and
  the float64 products of such matrices. The spatial rank given to \<open>create_translate\<close> is a
  number of dimensions, hence not negative (\<open>create_translate(-1, ())\<close> is the empty
  \<open>0 \<times> 0\<close> array).
\<close>

inductive builder_matrix :: "f64 ndarray \<Rightarrow> bool" where
  rotate: "create_rotate spatial_dims radians = Inr (Some M) \<Longrightarrow> builder_matrix (as_f64 M)"
| shear: "create_shear spatial_dims coefs = Inr M \<Longrightarrow> builder_matrix (as_f64 M)"
| scale: "create_scale spatial_dims scaling_factor = M \<Longrightarrow> builder_matrix (as_f64 M)"
| translate: "0 \<le> spatial_dims \<Longrightarrow> create_translate spatial_dims shift = Inr M
               \<Longrightarrow> builder_matrix (as_f64 M)"
| product: "builder_matrix A \<Longrightarrow> builder_matrix B \<Longrightarrow> matmul_f64 A B = Inr M
             \<Longrightarrow> builder_matrix M"

text \<open>
  The same, where the right factor of every product has only finite entries: no product
  taken before has overflowed into it.
\<close>

inductive finite_builder_matrix :: "f64 ndarray \<Rightarrow> bool" where
  rotate: "create_rotate spatial_dims radians = Inr (Some M) \<Longrightarrow> finite_builder_matrix (as_f64 M)"
| shear: "create_shear spatial_dims coefs = Inr M \<Longrightarrow> finite_builder_matrix (as_f64 M)"
| scale: "create_scale spatial_dims scaling_factor = M \<Longrightarrow> finite_builder_matrix (as_f64 M)"
| translate: "0 \<le> spatial_dims \<Longrightarrow> create_translate spatial_dims shift = Inr M
               \<Longrightarrow> finite_builder_matrix (as_f64 M)"
| product: "finite_builder_matrix A \<Longrightarrow> finite_builder_matrix B \<Longrightarrow> all_finite B
             \<Longrightarrow> matmul_f64 A B = Inr M \<Longrightarrow> finite_builder_matrix M"

text \<open>
  The spec's words for the rotation in three dimensions: the product of the elementary
  rotations about axes 1, 2 and 3, in that order, where a rotation whose angle is not
  supplied is the identity.
\<close>

definition rot_axis1 :: "real \<Rightarrow> real ndarray" where
  "rot_axis1 t = np_array [[1, 0, 0, 0], [0, cos t, - sin t, 0], [0, sin t, cos t, 0], [0, 0, 0, 1]]"

definition rot_axis2 :: "real \<Rightarrow> real ndarray" where
  "rot_axis2 t = np_array [[cos t, 0, sin t, 0], [0, 1, 0, 0], [- sin t, 0, cos t, 0], [0, 0, 0, 1]]"

definition rot_axis3 :: "real \<Rightarrow> real ndarray" where
  "rot_axis3 t = np_array [[cos t, - sin t, 0, 0], [sin t, cos t, 0, 0], [0, 0, 1, 0], [0, 0, 0, 1]]"

definition identity4 :: "real ndarray" where
  "identity4 = np_array [[1, 0, 0, 0], [0, 1, 0, 0], [0, 0, 1, 0], [0, 0, 0, 1]]"

definition rotate3_spec :: "real list \<Rightarrow> error + real ndarray" where
  "rotate3_spec radians =
     (let r1 = (if 0 < length radians then rot_axis1 (radians ! 0) else identity4);
          r2 = (if 1 < length radians then rot_axis2 (radians ! 1) else identity4);
          r3 = (if 2 < length radians then rot_axis3 (radians ! 2) else identity4)
      in bind_err (matmul r1 r2) (\<lambda>m. matmul m r3))"

text \<open>
  What the loop of \<open>create_translate\<close> keeps: the array is square of extent \<open>d + 1\<close> and its
  row \<open>d\<close> is \<open>[0, ..., 0, 1]\<close>.
\<close>

definition translate_inv :: "nat \<Rightarrow> real ndarray \<Rightarrow> bool" where
  "translate_inv d A \<longleftrightarrow>
     shape A = [Suc d, Suc d] \<and> (\<forall>j<Suc d. elem A [d, j] = (if j = d then 1 else 0))"

section \<open>Facts about arrays\<close>

lemma ravel_less: "valid_index sh idx \<Longrightarrow> ravel sh idx < prod_list sh"
  unfolding valid_index_def
proof (induction idx sh rule: list_all2_induct)
  case Nil then show ?case by simp
next
  case (Cons i idx n sh)
  have "i * prod_list sh + ravel sh idx < i * prod_list sh + prod_list sh"
    using Cons by simp
  also have "\<dots> = Suc i * prod_list sh" by simp
  also have "\<dots> \<le> n * prod_list sh" using Cons.hyps(1) by (intro mult_le_mono1) simp
  finally show ?case by simp
qed

lemma unravel_ravel: "valid_index sh idx \<Longrightarrow> unravel sh (ravel sh idx) = idx"
  unfolding valid_index_def
proof (induction idx sh rule: list_all2_induct)
  case Nil then show ?case by simp
next
  case (Cons i idx n sh)
  have r: "ravel sh idx < prod_list sh"
    using Cons.hyps(2) by (simp add: ravel_less valid_index_def)
  then show ?case using Cons.IH by simp
qed

lemma valid_unravel: "k < prod_list sh \<Longrightarrow> valid_index sh (unravel sh k)"
  unfolding valid_index_def
proof (induction sh arbitrary: k)
  case Nil then show ?case by simp
next
  case (Cons n sh)
  from Cons.prems have pos: "0 < prod_list sh" by (cases "prod_list sh = 0") auto
  have "k div prod_list sh < n"
    using Cons.prems pos by (simp add: less_mult_imp_div_less mult.commute)
  moreover have "k mod prod_list sh < prod_list sh" using pos by simp
  ultimately show ?case using Cons.IH by simp
qed

lemma ravel_unravel: "k < prod_list sh \<Longrightarrow> ravel sh (unravel sh k) = k"
proof (induction sh arbitrary: k)
  case Nil then show ?case by simp
next
  case (Cons n sh)
  from Cons.prems have pos: "0 < prod_list sh" by (cases "prod_list sh = 0") auto
  then have "ravel sh (unravel sh (k mod prod_list sh)) = k mod prod_list sh"
    by (intro Cons.IH) simp
  then show ?case by simp
qed

lemma valid_index_length: "valid_index sh idx \<Longrightarrow> length idx = length sh"
  by (simp add: valid_index_def list_all2_lengthD)

lemma valid_index_nth: "valid_index sh idx \<Longrightarrow> i < length sh \<Longrightarrow> idx ! i < sh ! i"
  by (simp add: valid_index_def list_all2_conv_all_nth)

lemma shape_tabulate [simp]: "shape (tabulate sh f) = sh"
  by (simp add: tabulate_def)

lemma wf_tabulate [simp]: "wf_array (tabulate sh f)"
  by (simp add: tabulate_def wf_array_def)

lemma elem_tabulate: "valid_index sh idx \<Longrightarrow> elem (tabulate sh f) idx = f idx"
  by (simp add: elem_def tabulate_def ravel_less unravel_ravel)

lemma array_eqI:
  fixes a b :: "'a ndarray"
  assumes "wf_array a" "wf_array b" "shape a = shape b"
    and "\<And>idx. valid_index (shape a) idx \<Longrightarrow> elem a idx = elem b idx"
  shows "a = b"
proof -
  have len: "length (data a) = length (data b)"
    using assms(1-3) by (simp add: wf_array_def)
  have "data a ! k = data b ! k" if "k < length (data a)" for k
  proof -
    from that have k: "k < prod_list (shape a)" using assms(1) by (simp add: wf_array_def)
    have "elem a (unravel (shape a) k) = elem b (unravel (shape a) k)"
      using assms(4) valid_unravel[OF k] by blast
    then show ?thesis using k assms(3) by (simp add: elem_def ravel_unravel)
  qed
  then have "data a = data b" using len by (simp add: list_eq_iff_nth_eq)
  then show ?thesis using assms(3) by simp
qed

lemma tabulate_cong:
  "(\<And>idx. valid_index sh idx \<Longrightarrow> f idx = g idx) \<Longrightarrow> tabulate sh f = tabulate sh g"
  by (simp add: tabulate_def valid_unravel)

lemma bind_err_Inr [simp]: "bind_err (Inr x) f = f x"
  by (simp add: bind_err_def)

lemma bind_err_Inl [simp]: "bind_err (Inl e) f = Inl e"
  by (simp add: bind_err_def)

lemma resolve_RSlice:
  assumes "length ixs = length sh" "length offs = length sh" "length lens = length sh"
    and "\<And>i. i < length sh \<Longrightarrow> resolve_index (sh ! i) (ixs ! i) = Inr (RSlice (offs ! i) (lens ! i))"
  shows "resolve sh ixs = Inr (map2 RSlice offs lens)"
  using assms
proof (induction sh arbitrary: ixs offs lens)
  case Nil
  then show ?case by simp
next
  case (Cons n sh)
  obtain ix ixs' where ixs: "ixs = ix # ixs'" using Cons.prems(1) by (cases ixs) auto
  obtain off offs' where offs: "offs = off # offs'" using Cons.prems(2) by (cases offs) auto
  obtain l lens' where lens: "lens = l # lens'" using Cons.prems(3) by (cases lens) auto
  have h: "resolve_index n ix = Inr (RSlice off l)"
    using Cons.prems(4)[of 0] by (simp add: ixs offs lens)
  have t: "resolve sh ixs' = Inr (map2 RSlice offs' lens')"
  proof (rule Cons.IH)
    fix i assume "i < length sh"
    then show "resolve_index (sh ! i) (ixs' ! i) = Inr (RSlice (offs' ! i) (lens' ! i))"
      using Cons.prems(4)[of "Suc i"] by (simp add: ixs offs lens)
  qed (use Cons.prems ixs offs lens in simp_all)
  show ?case by (simp add: ixs offs lens h t)
qed

lemma region_shape_RSlice:
  "length offs = length lens \<Longrightarrow> region_shape (map2 RSlice offs lens) = lens"
  by (induction offs lens rule: list_induct2) simp_all

lemma src_index_RSlice:
  "length offs = length lens \<Longrightarrow> length js = length lens \<Longrightarrow>
   src_index (map2 RSlice offs lens) js = map2 (+) offs js"
proof (induction offs lens arbitrary: js rule: list_induct2)
  case Nil then show ?case by simp
next
  case (Cons off offs l lens)
  then show ?case by (cases js) simp_all
qed

lemma rel_index_RSlice:
  "length offs = length lens \<Longrightarrow> length ks = length lens \<Longrightarrow>
   rel_index (map2 RSlice offs lens) ks =
     (if in_window offs lens ks then Some (map2 (-) ks offs) else None)"
proof (induction offs lens arbitrary: ks rule: list_induct2)
  case Nil then show ?case by (simp add: in_window_def)
next
  case (Cons off offs l lens)
  then obtain k ks' where ks: "ks = k # ks'" by (cases ks) auto
  have "rel_index (map2 RSlice offs lens) ks' =
     (if in_window offs lens ks' then Some (map2 (-) ks' offs) else None)"
    using Cons ks by simp
  then show ?case by (simp add: ks in_window_def)
qed

lemma strip_ones_same: "strip_ones (length vs) vs = vs"
  by (cases vs) simp_all

lemma broadcastable_same: "broadcastable sh sh"
  by (simp add: broadcastable_def strip_ones_same list_all2_same)

lemma bcast_index_same: "valid_index sh js \<Longrightarrow> bcast_index sh js = js"
proof -
  assume v: "valid_index sh js"
  then have len: "length js = length sh" by (simp add: valid_index_def list_all2_lengthD)
  have "map2 (\<lambda>v j. if v = 1 then 0 else j) sh js = js"
    using v unfolding valid_index_def
    by (induction js sh rule: list_all2_induct) auto
  then show ?thesis by (simp add: bcast_index_def len strip_ones_same)
qed

lemma in_window_valid:
  assumes "in_window offs lens ks" "length offs = length lens"
  shows "valid_index lens (map2 (-) ks offs)"
  using assms(2,1) unfolding in_window_def valid_index_def
proof (induction offs lens arbitrary: ks rule: list_induct2)
  case Nil then show ?case by simp
next
  case (Cons off offs l lens)
  then show ?case by (cases ks) auto
qed

lemma getitem_slices:
  assumes "resolve (shape a) ixs = Inr (map2 RSlice offs lens)" "length offs = length lens"
  shows "getitem a ixs = Inr (tabulate lens (\<lambda>js. elem a (map2 (+) offs js)))"
proof -
  have "tabulate lens (\<lambda>js. elem a (src_index (map2 RSlice offs lens) js)) =
        tabulate lens (\<lambda>js. elem a (map2 (+) offs js))"
    by (rule tabulate_cong) (simp add: src_index_RSlice assms(2) valid_index_length)
  then show ?thesis by (simp add: getitem_def assms region_shape_RSlice)
qed

lemma setitem_slices:
  assumes "resolve (shape a) ixs = Inr (map2 RSlice offs lens)"
    and "length offs = length lens" "length lens = length (shape a)" "shape v = lens"
  shows "setitem a ixs v =
           Inr (tabulate (shape a)
                  (\<lambda>ks. if in_window offs lens ks then elem v (map2 (-) ks offs) else elem a ks))"
proof -
  have "tabulate (shape a)
          (\<lambda>ks. case rel_index (map2 RSlice offs lens) ks of
                  None \<Rightarrow> elem a ks
                | Some js \<Rightarrow> elem v (bcast_index (shape v) js)) =
        tabulate (shape a)
          (\<lambda>ks. if in_window offs lens ks then elem v (map2 (-) ks offs) else elem a ks)"
  proof (rule tabulate_cong)
    fix ks assume "valid_index (shape a) ks"
    then have len: "length ks = length lens" by (simp add: valid_index_length assms(3))
    show "(case rel_index (map2 RSlice offs lens) ks of
                  None \<Rightarrow> elem a ks
                | Some js \<Rightarrow> elem v (bcast_index (shape v) js)) =
          (if in_window offs lens ks then elem v (map2 (-) ks offs) else elem a ks)"
      using in_window_valid[of offs lens ks]
      by (simp add: rel_index_RSlice assms(2,4) len bcast_index_same)
  qed
  then show ?thesis
    by (simp add: setitem_def assms region_shape_RSlice broadcastable_same)
qed

lemma sequence_err_Inr: "sequence_err (map Inr xs) = Inr xs"
  by (induction xs) simp_all

lemma elem_full:
  "valid_index sh ks \<Longrightarrow> elem \<lparr>shape = sh, data = replicate (prod_list sh) v\<rparr> ks = v"
  by (simp add: elem_def ravel_less)

lemma tabulate_elem: "wf_array a \<Longrightarrow> tabulate (shape a) (elem a) = a"
  by (rule array_eqI) (simp_all add: elem_tabulate)

section \<open>SliceClipper: properties\<close>

lemma zip_conv_map_upt:
  "zip xs ys = map (\<lambda>i. (xs ! i, ys ! i)) [0..<min (length xs) (length ys)]"
  by (rule nth_equalityI) simp_all

lemma zip_map_upt:
  "zip xs (map f [0..<m]) = map (\<lambda>i. (xs ! i, f i)) [0..<min (length xs) m]"
  by (rule nth_equalityI) simp_all

lemma zip_upt_map_upt:
  "zip [0..<n] (map f [0..<m]) = map (\<lambda>i. (i, f i)) [0..<min n m]"
  by (rule nth_equalityI) simp_all

lemma zip6_conv_map:
  "zip [0..<n] (zip A (zip B (zip C (zip D E)))) =
   map (\<lambda>i. (i, A ! i, B ! i, C ! i, D ! i, E ! i))
     [0..<min n (min (length A) (min (length B) (min (length C) (min (length D) (length E)))))]"
proof -
  have "zip [0..<n] (zip A (zip B (zip C (zip D E)))) =
        map (\<lambda>i. ([0..<n] ! i, A ! i, B ! i, C ! i, D ! i, E ! i))
     [0..<min n (min (length A) (min (length B) (min (length C) (min (length D) (length E)))))]"
    by (simp only: zip_conv_map_upt[of D E] zip_map_upt length_upt diff_zero)
  also have "\<dots> = map (\<lambda>i. (i, A ! i, B ! i, C ! i, D ! i, E ! i))
     [0..<min n (min (length A) (min (length B) (min (length C) (min (length D) (length E)))))]"
    by (rule map_cong[OF refl]) simp
  finally show ?thesis .
qed

lemma copypaste_fold:
  assumes "k \<le> ns" "k \<le> nd"
  shows "foldl (\<lambda>acc i. copypaste_step acc (i, sss ! i, dss ! i, scs ! i, dcs ! i, dms ! i))
           (replicate ns slice_all, replicate nd slice_all) [0..<k] =
         (map (\<lambda>j. if j < k \<and> truthy (dms ! j) then src_slice scs dcs sss dss dms j else slice_all) [0..<ns],
          map (\<lambda>j. if j < k \<and> truthy (dms ! j) then dest_slice scs dcs sss dss dms j else slice_all) [0..<nd])"
  using assms
proof (induction k)
  case 0
  show ?case by (simp add: map_replicate_const)
next
  case (Suc k)
  then have IH: "foldl (\<lambda>acc i. copypaste_step acc (i, sss ! i, dss ! i, scs ! i, dcs ! i, dms ! i))
           (replicate ns slice_all, replicate nd slice_all) [0..<k] =
         (map (\<lambda>j. if j < k \<and> truthy (dms ! j) then src_slice scs dcs sss dss dms j else slice_all) [0..<ns],
          map (\<lambda>j. if j < k \<and> truthy (dms ! j) then dest_slice scs dcs sss dss dms j else slice_all) [0..<nd])"
    by simp
  have k: "k < ns" "k < nd" using Suc.prems by simp_all
  show ?case
  proof (cases "truthy (dms ! k)")
    case True
    have e1: "(map (\<lambda>j. if j < k \<and> truthy (dms ! j) then src_slice scs dcs sss dss dms j else slice_all) [0..<ns])
                [k := src_slice scs dcs sss dss dms k] =
              map (\<lambda>j. if j < Suc k \<and> truthy (dms ! j) then src_slice scs dcs sss dss dms j else slice_all) [0..<ns]"
      using k(1) True by (intro nth_equalityI) (auto simp: nth_list_update less_Suc_eq)
    have e2: "(map (\<lambda>j. if j < k \<and> truthy (dms ! j) then dest_slice scs dcs sss dss dms j else slice_all) [0..<nd])
                [k := dest_slice scs dcs sss dss dms k] =
              map (\<lambda>j. if j < Suc k \<and> truthy (dms ! j) then dest_slice scs dcs sss dss dms j else slice_all) [0..<nd]"
      using k(2) True by (intro nth_equalityI) (auto simp: nth_list_update less_Suc_eq)
    show ?thesis
      using True e1 e2 by (simp add: IH Let_def src_slice_def dest_slice_def)
  next
    case False
    have "(\<lambda>j. if j < Suc k \<and> truthy (dms ! j) then f j else slice_all) =
          (\<lambda>j. if j < k \<and> truthy (dms ! j) then f j else slice_all)" for f :: "nat \<Rightarrow> index"
      using False by (auto simp: less_Suc_eq)
    then show ?thesis using False by (simp add: IH)
  qed
qed

lemma copypaste_arrays_eq:
  "copypaste_arrays src dest srccenter destcenter dims =
    (map (\<lambda>j. if j < zip_len src dest srccenter destcenter dims \<and> truthy (dims ! j)
               then src_slice srccenter destcenter (shape src) (shape dest) dims j else slice_all)
       [0..<ndim src],
     map (\<lambda>j. if j < zip_len src dest srccenter destcenter dims \<and> truthy (dims ! j)
               then dest_slice srccenter destcenter (shape src) (shape dest) dims j else slice_all)
       [0..<ndim dest])"
proof -
  let ?k = "zip_len src dest srccenter destcenter dims"
  have k: "?k \<le> ndim src" "?k \<le> ndim dest" by (simp_all add: zip_len_def)
  have z: "zip [0..<ndim src] (zip (shape src) (zip (shape dest) (zip srccenter (zip destcenter dims)))) =
           map (\<lambda>i. (i, shape src ! i, shape dest ! i, srccenter ! i, destcenter ! i, dims ! i)) [0..<?k]"
    unfolding zip6_conv_map by (simp add: zip_len_def ndim_def min.assoc)
  show ?thesis
    unfolding copypaste_arrays_def z foldl_map
    by (rule copypaste_fold[OF k])
qed

lemma np_clip_bounds: "0 \<le> hi \<Longrightarrow> 0 \<le> np_clip a 0 hi \<and> np_clip a 0 hi \<le> hi"
  by (simp add: np_clip_def)

lemma adjust_id: "0 \<le> i \<Longrightarrow> i \<le> int n \<Longrightarrow> adjust n i = nat i"
  by (auto simp: adjust_def)

lemma window_facts:
  fixes d :: int
  assumes sc: "0 \<le> sc" "sc < int ss" and dc: "0 \<le> dc" "dc < int ds"
  defines "d1 \<equiv> np_clip (d div 2) 0 (min sc dc)"
    and "d2 \<equiv> np_clip (d div 2 + 1) 0 (min (int ss - sc) (int ds - dc))"
  shows "slice_within ss (Slice (Some (sc - d1)) (Some (sc + d2)))"
    and "slice_within ds (Slice (Some (dc - d1)) (Some (dc + d2)))"
    and "slice_length ss (Slice (Some (sc - d1)) (Some (sc + d2))) =
         slice_length ds (Slice (Some (dc - d1)) (Some (dc + d2)))"
proof -
  have b1: "0 \<le> d1" "d1 \<le> sc" "d1 \<le> dc"
    using np_clip_bounds[of "min sc dc" "d div 2"] sc dc by (simp_all add: d1_def)
  have b2: "0 \<le> d2" "d2 \<le> int ss - sc" "d2 \<le> int ds - dc"
    using np_clip_bounds[of "min (int ss - sc) (int ds - dc)" "d div 2 + 1"] sc dc
    by (simp_all add: d2_def)
  show "slice_within ss (Slice (Some (sc - d1)) (Some (sc + d2)))"
    using b1 b2 sc by simp
  show "slice_within ds (Slice (Some (dc - d1)) (Some (dc + d2)))"
    using b1 b2 dc by simp
  have "slice_length ss (Slice (Some (sc - d1)) (Some (sc + d2))) = nat (d1 + d2)"
    using b1 b2 sc by (simp add: slice_start_def slice_stop_def adjust_id)
  moreover have "slice_length ds (Slice (Some (dc - d1)) (Some (dc + d2))) = nat (d1 + d2)"
    using b1 b2 dc by (simp add: slice_start_def slice_stop_def adjust_id)
  ultimately show "slice_length ss (Slice (Some (sc - d1)) (Some (sc + d2))) =
         slice_length ds (Slice (Some (dc - d1)) (Some (dc + d2)))" by simp
qed

text \<open>
  Claim C1, as the code has it. For arrays of equal rank and centers that are positions of
  their arrays, every slice \<open>copypaste_arrays\<close> returns stays inside its array. On an axis
  whose width \<open>dims[i]\<close> is given and not zero the source and destination slices have the
  same length. On an axis whose width is \<open>0\<close> or \<open>None\<close> (or is missing because \<open>dims\<close> is
  short) both slices are \<open>slice(None)\<close>: each selects its own array's whole axis, so the
  two lengths are the two extents.
\<close>

theorem copypaste_arrays_slices:
  assumes rank: "ndim src = ndim dest"
    and sc: "list_all2 (\<lambda>c n. 0 \<le> c \<and> c < int n) srccenter (shape src)"
    and dc: "list_all2 (\<lambda>c n. 0 \<le> c \<and> c < int n) destcenter (shape dest)"
    and res: "copypaste_arrays src dest srccenter destcenter dims = (srcslices, destslices)"
    and i: "i < ndim src"
  shows "length srcslices = ndim src \<and> length destslices = ndim dest \<and>
         slice_within (shape src ! i) (srcslices ! i) \<and>
         slice_within (shape dest ! i) (destslices ! i) \<and>
         (if i < length dims \<and> truthy (dims ! i)
          then slice_length (shape src ! i) (srcslices ! i) =
               slice_length (shape dest ! i) (destslices ! i)
          else srcslices ! i = slice_all \<and> destslices ! i = slice_all \<and>
               slice_length (shape src ! i) (srcslices ! i) = shape src ! i \<and>
               slice_length (shape dest ! i) (destslices ! i) = shape dest ! i)"
proof -
  let ?k = "zip_len src dest srccenter destcenter dims"
  have lens: "length srccenter = ndim src" "length destcenter = ndim src"
    using sc dc rank by (simp_all add: ndim_def list_all2_lengthD)
  have k: "?k = min (ndim src) (length dims)"
    using lens rank by (simp add: zip_len_def)
  have S: "srcslices = map (\<lambda>j. if j < ?k \<and> truthy (dims ! j)
               then src_slice srccenter destcenter (shape src) (shape dest) dims j else slice_all)
       [0..<ndim src]"
    and D: "destslices = map (\<lambda>j. if j < ?k \<and> truthy (dims ! j)
               then dest_slice srccenter destcenter (shape src) (shape dest) dims j else slice_all)
       [0..<ndim dest]"
    using res unfolding copypaste_arrays_eq by simp_all
  have len: "length srcslices = ndim src" "length destslices = ndim dest"
    by (simp_all add: S D)
  have ci: "0 \<le> srccenter ! i" "srccenter ! i < int (shape src ! i)"
           "0 \<le> destcenter ! i" "destcenter ! i < int (shape dest ! i)"
    using sc dc i rank by (simp_all add: list_all2_conv_all_nth ndim_def)
  show ?thesis
  proof (cases "i < length dims \<and> truthy (dims ! i)")
    case True
    then have Si: "srcslices ! i = src_slice srccenter destcenter (shape src) (shape dest) dims i"
      and Di: "destslices ! i = dest_slice srccenter destcenter (shape src) (shape dest) dims i"
      using i rank by (simp_all add: S D k)
    show ?thesis
      using True len window_facts[OF ci, of "the (dims ! i)"]
      unfolding Si Di src_slice_def dest_slice_def by simp
  next
    case False
    then have Si: "srcslices ! i = slice_all" and Di: "destslices ! i = slice_all"
      using i rank by (auto simp: S D k)
    show ?thesis
      using False len unfolding Si Di
      by (auto simp: slice_all_def slice_start_def slice_stop_def)
  qed
qed

text \<open>The example of the docstring: two \<open>6 \<times> 6\<close> arrays, centers \<open>(3, 2)\<close> and \<open>(2, 1)\<close>, widths \<open>(3, 4)\<close>.\<close>

theorem copypaste_arrays_slices_witness:
  "copypaste_arrays \<lparr>shape = [6, 6], data = replicate 36 (7::int)\<rparr>
       \<lparr>shape = [6, 6], data = replicate 36 0\<rparr> [3, 2] [2, 1] [Some 3, Some 4]
     = ([Slice (Some 2) (Some 5), Slice (Some 1) (Some 5)],
        [Slice (Some 1) (Some 4), Slice (Some 0) (Some 4)]) \<and>
   slice_within 6 (Slice (Some 1) (Some 5)) \<and> slice_within 6 (Slice (Some 0) (Some 4)) \<and>
   slice_length 6 (Slice (Some 1) (Some 5)) = slice_length 6 (Slice (Some 0) (Some 4))"
proof -
  let ?src = "\<lparr>shape = [6, 6], data = replicate 36 (7::int)\<rparr>"
  let ?dest = "\<lparr>shape = [6, 6], data = replicate 36 (0::int)\<rparr>"
  have r: "copypaste_arrays ?src ?dest [3, 2] [2, 1] [Some 3, Some 4]
     = ([Slice (Some 2) (Some 5), Slice (Some 1) (Some 5)],
        [Slice (Some 1) (Some 4), Slice (Some 0) (Some 4)])"
    by (simp add: copypaste_arrays_def ndim_def slice_all_def np_clip_def)
  have "ndim ?src = ndim ?dest" by (simp add: ndim_def)
  moreover have "list_all2 (\<lambda>c n. 0 \<le> c \<and> c < int n) [3, 2] (shape ?src)" by simp
  moreover have "list_all2 (\<lambda>c n. 0 \<le> c \<and> c < int n) [2, 1] (shape ?dest)" by simp
  moreover have "(1::nat) < ndim ?src" by (simp add: ndim_def)
  ultimately show ?thesis
    using copypaste_arrays_slices[of ?src ?dest "[3, 2]" "[2, 1]" "[Some 3, Some 4]" _ _ 1, OF _ _ _ r]
    using r by simp
qed

text \<open>
  With width \<open>0\<close> on an axis where the arrays differ in extent (3 and 5), the source slice
  selects 3 positions and the destination slice 5.
\<close>

theorem copypaste_arrays_full_axis_counterexample:
  "slice_length 3 (fst (copypaste_arrays \<lparr>shape = [3], data = [1, 2, 3::int]\<rparr>
       \<lparr>shape = [5], data = [0, 0, 0, 0, 0]\<rparr> [1] [2] [Some 0]) ! 0) \<noteq>
   slice_length 5 (snd (copypaste_arrays \<lparr>shape = [3], data = [1, 2, 3::int]\<rparr>
       \<lparr>shape = [5], data = [0, 0, 0, 0, 0]\<rparr> [1] [2] [Some 0]) ! 0)"
  by (simp add: copypaste_arrays_def ndim_def slice_all_def slice_start_def slice_stop_def)

subsection \<open>The body on the heap\<close>

lemma list_store_facts:
  assumes "a < length h" "h ! a = PyList xs"
  shows "length (list_store h a i v) = length h"
    and "list_store h a i v ! a = PyList (xs[i := v])"
    and "b \<noteq> a \<Longrightarrow> list_store h a i v ! b = h ! b"
  using assms by (simp_all add: list_store_def)

lemma copypaste_heap_fold:
  assumes "ss < length h" "ds < length h" "ss \<noteq> ds" "h ! ss = PyList S" "h ! ds = PyList D"
  shows "length (foldl (copypaste_heap_step ss ds) h xs) = length h \<and>
         foldl (copypaste_heap_step ss ds) h xs ! ss = PyList (fst (foldl copypaste_step (S, D) xs)) \<and>
         foldl (copypaste_heap_step ss ds) h xs ! ds = PyList (snd (foldl copypaste_step (S, D) xs)) \<and>
         (\<forall>a. a \<noteq> ss \<and> a \<noteq> ds \<longrightarrow> foldl (copypaste_heap_step ss ds) h xs ! a = h ! a)"
  using assms
proof (induction xs arbitrary: h S D)
  case Nil
  then show ?case by simp
next
  case (Cons x xs)
  obtain i sz dz sc dc dm where x: "x = (i, sz, dz, sc, dc, dm)" by (cases x)
  show ?case
  proof (cases "truthy dm")
    case False
    then show ?thesis using Cons.IH[OF Cons.prems] by (simp add: x)
  next
    case True
    define d1 where "d1 = np_clip (the dm div 2) 0 (min sc dc)"
    define d2 where "d2 = np_clip (the dm div 2 + 1) 0 (min (int sz - sc) (int dz - dc))"
    let ?vs = "Slice (Some (sc - d1)) (Some (sc + d2))"
    let ?vd = "Slice (Some (dc - d1)) (Some (dc + d2))"
    let ?h1 = "list_store h ss i ?vs"
    let ?h2 = "list_store ?h1 ds i ?vd"
    note f1 = list_store_facts[OF Cons.prems(1,4), where i = i and v = ?vs]
    have d1': "ds < length ?h1" "?h1 ! ds = PyList D"
      using f1 Cons.prems by simp_all
    note f2 = list_store_facts[OF d1', where i = i and v = ?vd]
    have p: "ss < length ?h2" "ds < length ?h2" "?h2 ! ss = PyList (S[i := ?vs])"
      "?h2 ! ds = PyList (D[i := ?vd])"
      using f1 f2 Cons.prems by simp_all
    have other: "?h2 ! a = h ! a" if "a \<noteq> ss" "a \<noteq> ds" for a
      using f1(3)[where b = a] f2(3)[where b = a] that by simp
    have step: "copypaste_heap_step ss ds h x = ?h2"
      using True by (simp add: x Let_def d1_def d2_def)
    have pstep: "copypaste_step (S, D) x = (S[i := ?vs], D[i := ?vd])"
      using True by (simp add: x Let_def d1_def d2_def)
    show ?thesis
      using Cons.IH[OF p(1,2) Cons.prems(3) p(3,4)] other f1(1) f2(1)
      by (simp add: step pstep)
  qed
qed

lemma copypaste_arrays_heap_eq:
  assumes "src < length h" "dest < length h" "h ! src = Array a" "h ! dest = Array b"
  shows "\<exists>h1. copypaste_arrays_heap h src dest srccenter destcenter dims =
                Inr (copypaste_arrays a b srccenter destcenter dims, h1) \<and>
              length h1 = length h + 2 \<and> (\<forall>k<length h. h1 ! k = h ! k)"
proof -
  let ?S = "replicate (ndim a) slice_all" and ?D = "replicate (ndim b) slice_all"
  let ?h0 = "(h @ [PyList ?S]) @ [PyList ?D]"
  let ?ss = "length h" and ?ds = "Suc (length h)"
  let ?xs = "zip [0..<ndim a] (zip (shape a) (zip (shape b) (zip srccenter (zip destcenter dims))))"
  let ?h1 = "foldl (copypaste_heap_step ?ss ?ds) ?h0 ?xs"
  have "?ss < length ?h0" "?ds < length ?h0" "?ss \<noteq> ?ds" "?h0 ! ?ss = PyList ?S" "?h0 ! ?ds = PyList ?D"
    by (simp_all add: nth_append)
  from copypaste_heap_fold[OF this, of ?xs]
  have len: "length ?h1 = length ?h0"
    and s: "?h1 ! ?ss = PyList (fst (foldl copypaste_step (?S, ?D) ?xs))"
    and d: "?h1 ! ?ds = PyList (snd (foldl copypaste_step (?S, ?D) ?xs))"
    and o: "\<And>k. k \<noteq> ?ss \<and> k \<noteq> ?ds \<longrightarrow> ?h1 ! k = ?h0 ! k"
    by blast+
  have old: "\<forall>k<length h. ?h1 ! k = h ! k"
    using o by (auto simp: nth_append)
  have "copypaste_arrays_heap h src dest srccenter destcenter dims =
        Inr (copypaste_arrays a b srccenter destcenter dims, ?h1)"
    using assms(3,4) s d
    by (simp add: copypaste_arrays_heap_def alloc_def Let_def copypaste_arrays_def)
  then show ?thesis using len old by auto
qed

text \<open>
  Claim C10. Run the body on a heap where \<open>src\<close> and \<open>dest\<close> are the addresses of two arrays.
  The call returns, and every object that was on the heap before the call is the same after
  it, the two arrays among them: the only stores of the body go to the two lists it has
  allocated itself. The slice pair it returns is determined by the shapes, the centers and
  the widths: a second call, on any other heap, with arrays of the same shapes and any
  elements returns the same pair.
\<close>

theorem copypaste_arrays_shape_only:
  assumes "src < length h" "dest < length h" "h ! src = Array a" "h ! dest = Array b"
    and "src' < length g" "dest' < length g" "g ! src' = Array a'" "g ! dest' = Array b'"
    and "shape a = shape a'" "shape b = shape b'"
  shows "\<exists>slices h1 g1.
           copypaste_arrays_heap h src dest srccenter destcenter dims = Inr (slices, h1) \<and>
           copypaste_arrays_heap g src' dest' srccenter destcenter dims = Inr (slices, g1) \<and>
           take (length h) h1 = h \<and> h1 ! src = Array a \<and> h1 ! dest = Array b \<and>
           take (length g) g1 = g"
proof -
  obtain h1 where h1: "copypaste_arrays_heap h src dest srccenter destcenter dims =
                Inr (copypaste_arrays a b srccenter destcenter dims, h1)"
    "length h1 = length h + 2" "\<forall>k<length h. h1 ! k = h ! k"
    using copypaste_arrays_heap_eq[OF assms(1-4)] by blast
  obtain g1 where g1: "copypaste_arrays_heap g src' dest' srccenter destcenter dims =
                Inr (copypaste_arrays a' b' srccenter destcenter dims, g1)"
    "length g1 = length g + 2" "\<forall>k<length g. g1 ! k = g ! k"
    using copypaste_arrays_heap_eq[OF assms(5-8)] by blast
  have eq: "copypaste_arrays a b srccenter destcenter dims =
            copypaste_arrays a' b' srccenter destcenter dims"
    using assms(9,10) by (simp add: copypaste_arrays_def ndim_def)
  have th: "take (length h) h1 = h"
    using h1(2,3) by (intro nth_equalityI) simp_all
  have tg: "take (length g) g1 = g"
    using g1(2,3) by (intro nth_equalityI) simp_all
  show ?thesis
    using h1(1,3) g1(1) eq th tg assms(1-4) by auto
qed

theorem copypaste_arrays_shape_only_witness:
  "copypaste_arrays_heap [Array \<lparr>shape = [2], data = [1, 2::int]\<rparr>, Array \<lparr>shape = [3], data = [0, 0, 0]\<rparr>]
      0 1 [1] [1] [Some 2] =
     Inr (([Slice (Some 0) (Some 2)], [Slice (Some 0) (Some 2)]),
          [Array \<lparr>shape = [2], data = [1, 2]\<rparr>, Array \<lparr>shape = [3], data = [0, 0, 0]\<rparr>,
           PyList [Slice (Some 0) (Some 2)], PyList [Slice (Some 0) (Some 2)]]) \<and>
   (\<exists>g1. copypaste_arrays_heap [Array \<lparr>shape = [3], data = [5, 6, 7::int]\<rparr>, Array \<lparr>shape = [2], data = [8, 9]\<rparr>]
      1 0 [1] [1] [Some 2] =
     Inr (([Slice (Some 0) (Some 2)], [Slice (Some 0) (Some 2)]), g1))"
proof -
  let ?h = "[Array \<lparr>shape = [2], data = [1, 2::int]\<rparr>, Array \<lparr>shape = [3], data = [0, 0, 0]\<rparr>]"
  let ?g = "[Array \<lparr>shape = [3], data = [5, 6, 7::int]\<rparr>, Array \<lparr>shape = [2], data = [8, 9]\<rparr>]"
  have ev: "copypaste_arrays_heap ?h 0 1 [1] [1] [Some 2] =
     Inr (([Slice (Some 0) (Some 2)], [Slice (Some 0) (Some 2)]),
          [Array \<lparr>shape = [2], data = [1, 2]\<rparr>, Array \<lparr>shape = [3], data = [0, 0, 0]\<rparr>,
           PyList [Slice (Some 0) (Some 2)], PyList [Slice (Some 0) (Some 2)]])"
    by code_simp
  from copypaste_arrays_shape_only[of 0 ?h 1 "\<lparr>shape = [2], data = [1, 2::int]\<rparr>"
      "\<lparr>shape = [3], data = [0, 0, 0]\<rparr>" 1 ?g 0 "\<lparr>shape = [2], data = [8, 9]\<rparr>"
      "\<lparr>shape = [3], data = [5, 6, 7]\<rparr>" "[1]" "[1]" "[Some 2]"] ev
  have "\<exists>g1. copypaste_arrays_heap ?g 1 0 [1] [1] [Some 2] =
     Inr (([Slice (Some 0) (Some 2)], [Slice (Some 0) (Some 2)]), g1)"
    by auto
  then show ?thesis using ev by simp
qed

subsection \<open>resize_center\<close>

lemma axis_clips:
  fixes a b :: nat
  assumes "0 < b"
  shows "np_clip (int b div 2) 0 (min (int a div 2) (int b div 2)) = int (min a b div 2)"
    and "np_clip (int b div 2 + 1) 0 (min (int a - int a div 2) (int b - int b div 2)) =
         int (min a b - min a b div 2)"
  using assms unfolding np_clip_def min_def max_def by (auto; linarith)+

lemma axis_window:
  fixes a b :: nat
  assumes "b = 0 \<longrightarrow> a = 0"
  defines "d1 \<equiv> np_clip (int b div 2) 0 (min (int a div 2) (int b div 2))"
    and "d2 \<equiv> np_clip (int b div 2 + 1) 0 (min (int a - int a div 2) (int b - int b div 2))"
  shows "resolve_index a (if truthy (Some (int b))
            then Slice (Some (int a div 2 - d1)) (Some (int a div 2 + d2)) else slice_all) =
         Inr (RSlice (a div 2 - min a b div 2) (min a b))"
    and "resolve_index b (if truthy (Some (int b))
            then Slice (Some (int b div 2 - d1)) (Some (int b div 2 + d2)) else slice_all) =
         Inr (RSlice (b div 2 - min a b div 2) (min a b))"
proof -
  show "resolve_index a (if truthy (Some (int b))
            then Slice (Some (int a div 2 - d1)) (Some (int a div 2 + d2)) else slice_all) =
         Inr (RSlice (a div 2 - min a b div 2) (min a b))"
  proof (cases "b = 0")
    case True
    then show ?thesis using assms(1) by (simp add: slice_all_def slice_start_def slice_stop_def)
  next
    case False
    then have b: "0 < b" by simp
    let ?m = "min a b"
    have d: "d1 = int (?m div 2)" "d2 = int (?m - ?m div 2)"
      unfolding d1_def d2_def using axis_clips[OF b] by simp_all
    have s: "adjust a (int a div 2 - int (?m div 2)) = a div 2 - ?m div 2"
      by (subst adjust_id) (auto simp: min_def; linarith)+
    have e: "adjust a (int a div 2 + int (?m - ?m div 2)) = a div 2 + (?m - ?m div 2)"
      by (subst adjust_id) (auto simp: min_def; linarith)+
    have st: "slice_start a (Some (int a div 2 - d1)) = a div 2 - ?m div 2"
      by (simp add: slice_start_def d s)
    have "a div 2 + (?m - ?m div 2) - (a div 2 - ?m div 2) = ?m"
      by (auto simp: min_def; linarith)
    then have ln: "slice_stop a (Some (int a div 2 + d2)) - (a div 2 - ?m div 2) = ?m"
      by (simp only: slice_stop_def option.case d e)
    have "resolve_index a (Slice (Some (int a div 2 - d1)) (Some (int a div 2 + d2))) =
          Inr (RSlice (a div 2 - ?m div 2) ?m)"
      unfolding resolve_index.simps st ln by (rule refl)
    moreover have "truthy (Some (int b))" using b by simp
    ultimately show ?thesis by (simp only: if_True)
  qed
  show "resolve_index b (if truthy (Some (int b))
            then Slice (Some (int b div 2 - d1)) (Some (int b div 2 + d2)) else slice_all) =
         Inr (RSlice (b div 2 - min a b div 2) (min a b))"
  proof (cases "b = 0")
    case True
    then show ?thesis using assms(1) by (simp add: slice_all_def slice_start_def slice_stop_def)
  next
    case False
    then have b: "0 < b" by simp
    let ?m = "min a b"
    have d: "d1 = int (?m div 2)" "d2 = int (?m - ?m div 2)"
      unfolding d1_def d2_def using axis_clips[OF b] by simp_all
    have s: "adjust b (int b div 2 - int (?m div 2)) = b div 2 - ?m div 2"
      by (subst adjust_id) (auto simp: min_def; linarith)+
    have e: "adjust b (int b div 2 + int (?m - ?m div 2)) = b div 2 + (?m - ?m div 2)"
      by (subst adjust_id) (auto simp: min_def; linarith)+
    have st: "slice_start b (Some (int b div 2 - d1)) = b div 2 - ?m div 2"
      by (simp add: slice_start_def d s)
    have "b div 2 + (?m - ?m div 2) - (b div 2 - ?m div 2) = ?m"
      by (auto simp: min_def; linarith)
    then have ln: "slice_stop b (Some (int b div 2 + d2)) - (b div 2 - ?m div 2) = ?m"
      by (simp only: slice_stop_def option.case d e)
    have "resolve_index b (Slice (Some (int b div 2 - d1)) (Some (int b div 2 + d2))) =
          Inr (RSlice (b div 2 - ?m div 2) ?m)"
      unfolding resolve_index.simps st ln by (rule refl)
    moreover have "truthy (Some (int b))" using b by simp
    ultimately show ?thesis by (simp only: if_True)
  qed
qed

lemma resize_center_char:
  fixes img :: "'a ndarray"
  assumes len: "length tgt = ndim img"
  defines "rd \<equiv> resolved_dims tgt (shape img)"
  defines "m \<equiv> map2 min (shape img) rd"
  shows "resize_center img (map (\<lambda>t. Some (int t)) tgt) fill =
         Inr (tabulate rd
               (\<lambda>ks. if in_window (center_offsets m rd) m ks
                     then elem img (map2 (+) (center_offsets m (shape img))
                                     (map2 (-) ks (center_offsets m rd)))
                     else fill))"
proof -
  let ?n = "ndim img"
  let ?R = "map (\<lambda>t. Some (int t)) tgt"
  let ?soffs = "center_offsets m (shape img)"
  let ?doffs = "center_offsets m rd"
  let ?dest = "\<lparr>shape = rd, data = replicate (prod_list rd) fill\<rparr>"
  let ?sc = "map (\<lambda>n. int n div 2) (shape img)"
  let ?dc = "map (\<lambda>n. int n div 2) rd"
  let ?dims = "map Some (map int rd)"
  have lrd: "length rd = ?n" and lm: "length m = ?n"
    and lso: "length ?soffs = ?n" and ldo: "length ?doffs = ?n"
    using len by (simp_all add: rd_def m_def resolved_dims_def center_offsets_def ndim_def)
  have rdi: "rd ! i = (if tgt ! i = 0 then shape img ! i else tgt ! i)" if "i < ?n" for i
    using that len by (simp add: rd_def resolved_dims_def ndim_def)
  have mi: "m ! i = min (shape img ! i) (rd ! i)" if "i < ?n" for i
    using that lrd by (simp add: m_def ndim_def)
  have soi: "?soffs ! i = shape img ! i div 2 - m ! i div 2" if "i < ?n" for i
    using that lm by (simp add: center_offsets_def ndim_def)
  have doi: "?doffs ! i = rd ! i div 2 - m ! i div 2" if "i < ?n" for i
    using that lm lrd by (simp add: center_offsets_def)
  have step1: "map (\<lambda>i. if truthy (?R ! i) then Inr (the (?R ! i))
                    else if i < ndim img then Inr (int (shape img ! i))
                    else Inl (IndexError ''tuple index out of range''))
             [0..<length ?R] = map Inr (map int rd)"
    using len lrd by (intro nth_equalityI) (auto simp: rdi)
  have step2: "np_full (map int rd) fill = Inr ?dest"
    by (simp add: np_full_def comp_def)
  have zl: "zip_len img ?dest ?sc ?dc ?dims = ?n"
    using lrd by (simp add: zip_len_def ndim_def)
  define S where "S = map (\<lambda>j. if j < ?n \<and> truthy (?dims ! j)
               then src_slice ?sc ?dc (shape img) rd ?dims j else slice_all) [0..<?n]"
  define D where "D = map (\<lambda>j. if j < ?n \<and> truthy (?dims ! j)
               then dest_slice ?sc ?dc (shape img) rd ?dims j else slice_all) [0..<?n]"
  have step3: "copypaste_arrays img ?dest ?sc ?dc ?dims = (S, D)"
    unfolding copypaste_arrays_eq zl S_def D_def using lrd by (simp add: ndim_def)
  have zero: "rd ! i = 0 \<longrightarrow> shape img ! i = 0" if "i < ?n" for i
    using that by (simp add: rdi)
  have rS: "resolve (shape img) S = Inr (map2 RSlice ?soffs m)"
  proof (rule resolve_RSlice)
    fix i assume i: "i < length (shape img)"
    then have i': "i < ?n" by (simp add: ndim_def)
    have "S ! i = (if truthy (Some (int (rd ! i)))
            then Slice (Some (int (shape img ! i) div 2 -
                     np_clip (int (rd ! i) div 2) 0 (min (int (shape img ! i) div 2) (int (rd ! i) div 2))))
                   (Some (int (shape img ! i) div 2 +
                     np_clip (int (rd ! i) div 2 + 1) 0
                       (min (int (shape img ! i) - int (shape img ! i) div 2)
                            (int (rd ! i) - int (rd ! i) div 2))))
            else slice_all)"
      using i' i lrd by (simp add: S_def src_slice_def)
    then show "resolve_index (shape img ! i) (S ! i) = Inr (RSlice (?soffs ! i) (m ! i))"
      using axis_window(1)[OF zero[OF i']] by (simp only: soi[OF i'] mi[OF i'])
  qed (use lso lm in \<open>simp_all add: S_def ndim_def\<close>)
  have rD: "resolve rd D = Inr (map2 RSlice ?doffs m)"
  proof (rule resolve_RSlice)
    fix i assume i: "i < length rd"
    then have i': "i < ?n" by (simp add: lrd)
    have "D ! i = (if truthy (Some (int (rd ! i)))
            then Slice (Some (int (rd ! i) div 2 -
                     np_clip (int (rd ! i) div 2) 0 (min (int (shape img ! i) div 2) (int (rd ! i) div 2))))
                   (Some (int (rd ! i) div 2 +
                     np_clip (int (rd ! i) div 2 + 1) 0
                       (min (int (shape img ! i) - int (shape img ! i) div 2)
                            (int (rd ! i) - int (rd ! i) div 2))))
            else slice_all)"
      using i' i lrd by (simp add: D_def dest_slice_def ndim_def)
    then show "resolve_index (rd ! i) (D ! i) = Inr (RSlice (?doffs ! i) (m ! i))"
      using axis_window(2)[OF zero[OF i']] by (simp only: doi[OF i'] mi[OF i'])
  qed (use ldo lm lrd in \<open>simp_all add: D_def\<close>)
  let ?v = "tabulate m (\<lambda>js. elem img (map2 (+) ?soffs js))"
  have step4: "getitem img S = Inr ?v"
    by (rule getitem_slices[OF rS]) (simp add: lso lm)
  have step5: "setitem ?dest D ?v =
        Inr (tabulate rd (\<lambda>ks. if in_window ?doffs m ks then elem ?v (map2 (-) ks ?doffs)
                                else elem ?dest ks))"
    using setitem_slices[of ?dest D ?doffs m ?v] rD ldo lm lrd by simp
  have step6: "tabulate rd (\<lambda>ks. if in_window ?doffs m ks then elem ?v (map2 (-) ks ?doffs)
                                else elem ?dest ks) =
        tabulate rd (\<lambda>ks. if in_window ?doffs m ks
                     then elem img (map2 (+) ?soffs (map2 (-) ks ?doffs)) else fill)"
  proof (rule tabulate_cong)
    fix ks assume v: "valid_index rd ks"
    show "(if in_window ?doffs m ks then elem ?v (map2 (-) ks ?doffs) else elem ?dest ks) =
          (if in_window ?doffs m ks
                     then elem img (map2 (+) ?soffs (map2 (-) ks ?doffs)) else fill)"
      using in_window_valid[of ?doffs m ks] v ldo lm
      by (simp add: elem_tabulate elem_full)
  qed
  show ?thesis
    unfolding resize_center_def step1 sequence_err_Inr bind_err_Inr step2
    by (simp add: step3[unfolded map_map] step4 step5 step6 Let_def)
qed

lemma valid_index_nth_iff:
  "valid_index sh ks \<longleftrightarrow> length ks = length sh \<and> (\<forall>i<length sh. ks ! i < sh ! i)"
  by (auto simp: valid_index_def list_all2_conv_all_nth)

lemma in_window_nth_iff:
  "length offs = length lens \<Longrightarrow>
   in_window offs lens ks \<longleftrightarrow>
     length ks = length lens \<and> (\<forall>i<length lens. offs ! i \<le> ks ! i \<and> ks ! i < offs ! i + lens ! i)"
  by (auto simp: in_window_def list_all2_conv_all_nth)

lemma grow_facts:
  assumes "list_all2 (\<lambda>s t. s \<le> t \<and> (s = 0 \<longrightarrow> t = 0)) ss ts"
  shows "resolved_dims ts ss = ts" "map2 min ss ts = ss"
        "resolved_dims ss ts = ss" "map2 min ts ss = ss"
  using assms by (induction ss ts rule: list_all2_induct) (auto simp: resolved_dims_def)

lemma same_facts:
  "resolved_dims ss ss = ss" "map2 min ss ss = ss"
  "center_offsets ss ss = replicate (length ss) 0"
  by (induction ss) (auto simp: resolved_dims_def center_offsets_def)

lemma map2_add_zero: "length ks = n \<Longrightarrow> map2 (+) (replicate n (0::nat)) ks = ks"
  by (rule nth_equalityI) simp_all

lemma map2_sub_zero: "length ks = n \<Longrightarrow> map2 (-) ks (replicate n (0::nat)) = ks"
  by (rule nth_equalityI) simp_all

lemma in_window_zero: "valid_index sh ks \<Longrightarrow> in_window (replicate (length sh) 0) sh ks"
  by (simp add: in_window_nth_iff valid_index_nth_iff)

text \<open>
  Claim C5. Resizing an array to its own shape returns an array equal to it: every axis is
  copied whole into a destination of the same extents (an axis of extent \<open>0\<close> asks for
  \<open>0\<close>, which keeps the extent).
\<close>

theorem resize_center_same_shape:
  fixes img :: "'a ndarray"
  assumes wf: "wf_array img"
  shows "resize_center img (map (\<lambda>n. Some (int n)) (shape img)) fill_value = Inr img"
proof -
  let ?s = "shape img"
  let ?z = "replicate (length ?s) (0::nat)"
  have "resize_center img (map (\<lambda>n. Some (int n)) ?s) fill_value =
        Inr (tabulate ?s (\<lambda>ks. if in_window ?z ?s ks
                     then elem img (map2 (+) ?z (map2 (-) ks ?z)) else fill_value))"
    using resize_center_char[of ?s img fill_value, unfolded same_facts] by (simp add: ndim_def)
  also have "tabulate ?s (\<lambda>ks. if in_window ?z ?s ks
                     then elem img (map2 (+) ?z (map2 (-) ks ?z)) else fill_value) =
             tabulate ?s (elem img)"
    by (rule tabulate_cong)
       (simp add: in_window_zero valid_index_length map2_add_zero map2_sub_zero)
  also have "\<dots> = img" by (rule tabulate_elem[OF wf])
  finally show ?thesis .
qed

theorem resize_center_same_shape_witness:
  "wf_array \<lparr>shape = [2, 3], data = [1, 2, 3, 4, 5, 6::int]\<rparr> \<and>
   resize_center \<lparr>shape = [2, 3], data = [1, 2, 3, 4, 5, 6::int]\<rparr> [Some 2, Some 3] 0 =
     Inr \<lparr>shape = [2, 3], data = [1, 2, 3, 4, 5, 6]\<rparr>"
  using resize_center_same_shape[of "\<lparr>shape = [2, 3], data = [1, 2, 3, 4, 5, 6::int]\<rparr>" 0]
  by (simp add: wf_array_def)

text \<open>
  Growing and shrinking back, for extents \<open>s \<le> t\<close> per axis. A requested extent \<open>0\<close> means
  "keep the extent", so an axis of extent \<open>0\<close> that has grown cannot be asked back; the
  side condition \<open>s = 0 \<longrightarrow> t = 0\<close> leaves that case out.
\<close>

lemma grow_then_shrink_general:
  fixes img :: "'a ndarray"
  assumes wf: "wf_array img"
    and le: "list_all2 (\<lambda>s t. s \<le> t \<and> (s = 0 \<longrightarrow> t = 0)) (shape img) tgt"
  shows "\<exists>big. resize_center img (map (\<lambda>t. Some (int t)) tgt) fill_value = Inr big \<and>
           shape big = tgt \<and>
           (\<forall>ks. valid_index tgt ks \<longrightarrow>
              elem big ks =
                (if in_window (center_offsets (shape img) tgt) (shape img) ks
                 then elem img (map2 (-) ks (center_offsets (shape img) tgt))
                 else fill_value)) \<and>
           resize_center big (map (\<lambda>s. Some (int s)) (shape img)) fill_value' = Inr img"
proof -
  let ?s = "shape img"
  let ?z = "replicate (length ?s) (0::nat)"
  let ?offs = "center_offsets ?s tgt"
  have len: "length tgt = length ?s" using le by (simp add: list_all2_lengthD)
  have loffs: "length ?offs = length ?s" by (simp add: center_offsets_def len)
  have fit: "?offs ! i + ?s ! i \<le> tgt ! i" if "i < length ?s" for i
  proof -
    have "?s ! i \<le> tgt ! i" using le that by (simp add: list_all2_conv_all_nth)
    then show ?thesis using that len by (simp add: center_offsets_def)
  qed
  define big where "big = tabulate tgt (\<lambda>ks. if in_window ?offs ?s ks
                     then elem img (map2 (-) ks ?offs) else fill_value)"
  have "resize_center img (map (\<lambda>t. Some (int t)) tgt) fill_value =
        Inr (tabulate tgt (\<lambda>ks. if in_window ?offs ?s ks
                     then elem img (map2 (+) ?z (map2 (-) ks ?offs)) else fill_value))"
    using resize_center_char[of tgt img fill_value, unfolded grow_facts[OF le] same_facts]
    by (simp add: ndim_def len)
  also have "tabulate tgt (\<lambda>ks. if in_window ?offs ?s ks
                     then elem img (map2 (+) ?z (map2 (-) ks ?offs)) else fill_value) = big"
    unfolding big_def
    by (rule tabulate_cong) (simp add: valid_index_length map2_add_zero len loffs)
  finally have grow: "resize_center img (map (\<lambda>t. Some (int t)) tgt) fill_value = Inr big" .
  have sb: "shape big = tgt" by (simp add: big_def)
  have eb: "elem big ks = (if in_window ?offs ?s ks
                     then elem img (map2 (-) ks ?offs) else fill_value)"
    if "valid_index tgt ks" for ks
    using that by (simp add: big_def elem_tabulate)
  have "resize_center big (map (\<lambda>s. Some (int s)) ?s) fill_value' =
        Inr (tabulate ?s (\<lambda>ks. if in_window ?z ?s ks
                     then elem big (map2 (+) ?offs (map2 (-) ks ?z)) else fill_value'))"
    using resize_center_char[of ?s big fill_value', unfolded sb grow_facts[OF le] same_facts]
    by (simp add: ndim_def sb len)
  also have "tabulate ?s (\<lambda>ks. if in_window ?z ?s ks
                     then elem big (map2 (+) ?offs (map2 (-) ks ?z)) else fill_value') =
             tabulate ?s (elem img)"
  proof (rule tabulate_cong)
    fix ks assume v: "valid_index ?s ks"
    then have lk: "length ks = length ?s" by (simp add: valid_index_length)
    have v': "valid_index tgt (map2 (+) ?offs ks)"
      using v fit loffs len by (fastforce simp: valid_index_nth_iff)
    have w: "in_window ?offs ?s (map2 (+) ?offs ks)"
      using v loffs by (simp add: in_window_nth_iff valid_index_nth_iff)
    have rt: "map2 (-) (map2 (+) ?offs ks) ?offs = ks"
      using lk loffs by (intro nth_equalityI) simp_all
    show "(if in_window ?z ?s ks then elem big (map2 (+) ?offs (map2 (-) ks ?z)) else fill_value') =
          elem img ks"
      using v by (simp add: in_window_zero map2_sub_zero lk eb[OF v'] w rt)
  qed
  also have "\<dots> = img" by (rule tabulate_elem[OF wf])
  finally have shrink: "resize_center big (map (\<lambda>s. Some (int s)) ?s) fill_value' = Inr img" .
  show ?thesis using grow sb eb shrink by blast
qed

text \<open>
  Claim C4. Let \<open>img\<close> be an array (its extents are positive) and let every extent of the
  target be at least that of \<open>img\<close>. Growing \<open>img\<close> to the target succeeds and gives an
  array \<open>big\<close> of the target shape which holds \<open>img\<close> in the centered window (on each axis
  from \<open>t div 2 - s div 2\<close>, of length \<open>s\<close>) and the fill value at every position outside
  it; resizing \<open>big\<close> to the shape of \<open>img\<close> returns an array equal to \<open>img\<close>.
\<close>

theorem resize_center_grow_shrink:
  fixes img :: "'a ndarray"
  assumes wf: "wf_array img"
    and pos: "\<forall>n\<in>set (shape img). 0 < n"
    and le: "list_all2 (\<lambda>s t. s \<le> t) (shape img) tgt"
  shows "\<exists>big. resize_center img (map (\<lambda>t. Some (int t)) tgt) fill_value = Inr big \<and>
           shape big = tgt \<and>
           (\<forall>ks. valid_index tgt ks \<longrightarrow>
              elem big ks =
                (if in_window (center_offsets (shape img) tgt) (shape img) ks
                 then elem img (map2 (-) ks (center_offsets (shape img) tgt))
                 else fill_value)) \<and>
           resize_center big (map (\<lambda>s. Some (int s)) (shape img)) fill_value' = Inr img"
proof -
  have "shape img ! i \<noteq> 0" if "i < length (shape img)" for i
    using pos nth_mem[OF that] by auto
  then have "list_all2 (\<lambda>s t. s \<le> t \<and> (s = 0 \<longrightarrow> t = 0)) (shape img) tgt"
    using le by (fastforce simp: list_all2_conv_all_nth)
  then show ?thesis by (rule grow_then_shrink_general[OF wf])
qed

theorem resize_center_grow_shrink_witness:
  "wf_array \<lparr>shape = [2, 2], data = [1, 2, 3, 4::int]\<rparr> \<and>
   list_all2 (\<lambda>s t. s \<le> t) [2, 2] [3, 4::nat] \<and>
   resize_center \<lparr>shape = [2, 2], data = [1, 2, 3, 4::int]\<rparr> [Some 3, Some 4] 0 =
     Inr \<lparr>shape = [3, 4], data = [0, 1, 2, 0, 0, 3, 4, 0, 0, 0, 0, 0]\<rparr> \<and>
   resize_center \<lparr>shape = [3, 4], data = [0, 1, 2, 0, 0, 3, 4, 0, 0, 0, 0, 0::int]\<rparr>
       [Some 2, Some 2] 7 =
     Inr \<lparr>shape = [2, 2], data = [1, 2, 3, 4]\<rparr>"
proof -
  let ?img = "\<lparr>shape = [2, 2], data = [1, 2, 3, 4::int]\<rparr>"
  have wf: "wf_array ?img" by (simp add: wf_array_def)
  have pos: "\<forall>n\<in>set (shape ?img). 0 < n" by simp
  have le: "list_all2 (\<lambda>s t. s \<le> t) (shape ?img) [3, 4::nat]" by simp
  have ev: "resize_center ?img [Some 3, Some 4] 0 =
     Inr \<lparr>shape = [3, 4], data = [0, 1, 2, 0, 0, 3, 4, 0, 0, 0, 0, 0]\<rparr>"
    by code_simp
  from resize_center_grow_shrink[OF wf pos le, of 0 7] ev
  have "resize_center \<lparr>shape = [3, 4], data = [0, 1, 2, 0, 0, 3, 4, 0, 0, 0, 0, 0::int]\<rparr>
       [Some 2, Some 2] 7 = Inr ?img"
    by auto
  then show ?thesis using wf le ev by simp
qed

section \<open>CenterSampler: properties\<close>

lemma nonzero_bound: "k \<in> set (nonzero bs) \<Longrightarrow> k < length bs"
  by (simp add: nonzero_def)

lemma np_any_axis0_length:
  "shape x = c # sp \<Longrightarrow> \<exists>bs. np_any_axis0 x = Inr bs \<and> length bs = prod_list sp"
  by (simp add: np_any_axis0_def)

lemma fg_bg_indicies_ok:
  fixes label :: "('a::zero) ndarray" and image' :: "('b::linorder) ndarray option"
  assumes lab: "shape label = c # sp"
    and img: "case image' of None \<Rightarrow> True | Some img \<Rightarrow> tl (shape img) = sp \<and> shape img \<noteq> []"
  shows "\<exists>fg bg. fg_bg_indicies label image' image_threshold = Inr (fg, bg) \<and>
                 (\<forall>k\<in>set fg \<union> set bg. k < prod_list sp)"
proof -
  obtain lf where lf: "np_any_axis0 (map_array (\<lambda>v. v \<noteq> 0) label) = Inr lf"
    and llf: "length lf = prod_list sp"
    using np_any_axis0_length[of "map_array (\<lambda>v. v \<noteq> 0) label" c sp] lab
    by (auto simp: map_array_def)
  show ?thesis
  proof (cases image')
    case None
    then show ?thesis
      using lf llf by (auto simp: fg_bg_indicies_def Let_def dest!: nonzero_bound)
  next
    case (Some im)
    then obtain c' where si: "shape im = c' # sp" using img by (cases "shape im") auto
    obtain imf where imf: "np_any_axis0 (map_array (\<lambda>v. image_threshold < v) im) = Inr imf"
      and limf: "length imf = prod_list sp"
      using np_any_axis0_length[of "map_array (\<lambda>v. image_threshold < v) im" c' sp] si
      by (auto simp: map_array_def)
    have la: "logical_and imf (map Not lf) = Inr (map2 (\<and>) imf (map Not lf))"
      using llf limf by (simp add: logical_and_def)
    have "length (map2 (\<and>) imf (map Not lf)) = prod_list sp" using llf limf by simp
    then show ?thesis
      using lf llf imf la Some
      by (auto simp: fg_bg_indicies_def Let_def simp del: length_map length_zip dest!: nonzero_bound)
  qed
qed

lemma sample_centers_ok:
  assumes rng: "rng_ok R"
    and fg: "0 < pos_ratio \<longrightarrow> fg \<noteq> []"
    and bg: "pos_ratio < 1 \<longrightarrow> bg \<noteq> []"
    and bound: "\<forall>k\<in>set fg \<union> set bg. k < prod_list sh"
  shows "\<exists>cs s'. sample_centers R sh vs ve fg bg pos_ratio n s = Inr (cs, s') \<and> length cs = n \<and>
           (\<forall>c\<in>set cs. \<exists>k\<in>set (if pos_ratio \<le> 0 then bg else if 1 \<le> pos_ratio then fg else fg @ bg).
                           c = shift_center vs ve (tl (unravel sh k)))"
proof (induction n arbitrary: s)
  case 0
  show ?case by simp
next
  case (Suc n)
  obtain u s1 where r: "rs_rand R s = (u, s1)" by (cases "rs_rand R s")
  have "0 \<le> fst (rs_rand R s) \<and> fst (rs_rand R s) < 1" using rng by (simp add: rng_ok_def)
  then have u: "0 \<le> u" "u < 1" by (simp_all add: r)
  let ?use = "if u < pos_ratio then fg else bg"
  have ne: "?use \<noteq> []" using fg bg u by auto
  obtain j s2 where ri: "rs_randint R (length ?use) s1 = (j, s2)"
    by (cases "rs_randint R (length ?use) s1")
  have "fst (rs_randint R (length ?use) s1) < length ?use"
    using rng ne by (simp add: rng_ok_def)
  then have j: "j < length ?use" by (simp add: ri)
  let ?k = "?use ! j"
  have kin: "?k \<in> set ?use" using j by simp
  then have kb: "?k < prod_list sh" using bound by (auto split: if_splits)
  have kset: "?k \<in> set (if pos_ratio \<le> 0 then bg else if 1 \<le> pos_ratio then fg else fg @ bg)"
    using kin u by (auto split: if_splits)
  from Suc.IH[of s2] obtain cs s' where
    rec: "sample_centers R sh vs ve fg bg pos_ratio n s2 = Inr (cs, s')" and len: "length cs = n"
    and orig: "\<forall>c\<in>set cs. \<exists>k\<in>set (if pos_ratio \<le> 0 then bg else if 1 \<le> pos_ratio then fg else fg @ bg).
                           c = shift_center vs ve (tl (unravel sh k))"
    by blast
  have "sample_centers R sh vs ve fg bg pos_ratio (Suc n) s =
        Inr (shift_center vs ve (tl (unravel sh ?k)) # cs, s')"
    using ne j kb by (simp add: r ri rec unravel_index_def bind_err_def Let_def)
  then show ?case using len orig kset by auto
qed

lemma rng_ok_example: "rng_ok example_source"
proof -
  have "(of_nat (s mod 10) :: rat) < 10" for s :: nat
  proof -
    have "s mod 10 < 10" by simp
    then have "(of_nat (s mod 10) :: rat) < of_nat 10" by (simp only: of_nat_less_iff)
    then show ?thesis by simp
  qed
  then show ?thesis by (simp add: rng_ok_def example_source_def)
qed

lemma generate_unfold:
  fixes label :: "('a::zero) ndarray" and image' :: "('b::linorder) ndarray option"
  assumes "length size' = length (tl (shape label))"
    and "list_all2 (\<lambda>m sz. sz \<le> int m) (tl (shape label)) size'"
    and "fg_bg_indicies label image' image_threshold = Inr (fg, bg)"
    and "valid_range (tl (shape label)) size' = (vs, ve)"
  shows "generate_pos_neg_label_crop_centers R label size' num_samples pos_ratio
           image' image_threshold s =
    (if fg = [] \<and> bg = [] then Inl (ValueError ''no sampling location available.'')
     else bind_err
            (sample_centers R (shape label) vs ve fg bg
               (if fg = [] \<or> bg = [] then (if fg = [] then 0 else 1) else pos_ratio)
               (nat num_samples) s)
            (\<lambda>(centers, s'). Inr (centers,
               (if fg = [] \<or> bg = [] then [UnbalancedWarning (length fg) (length bg)] else []),
               s')))"
proof -
  have "list_all2 (\<lambda>m sz. 0 \<le> int m - sz) (tl (shape label)) size'"
    using assms(2) by (simp add: list_all2_conv_all_nth)
  then show ?thesis
    using assms(1) by (simp add: generate_pos_neg_label_crop_centers_def assms(3,4) bind_err_def)
qed

text \<open>
  Claim C3. Let the two assertions on \<open>size\<close> hold, let \<open>label\<close> have at least one channel,
  let \<open>image\<close> (if given) have the spatial shape of \<open>label\<close>, and let the random source draw
  within its ranges. Then the call raises exactly when the foreground and the background
  index sets are both empty, and the error is the \<open>ValueError\<close> of line 208. When both sets
  are non-empty it returns without a warning. When exactly one set is empty it returns,
  emits the one warning, runs the sampling loop with \<open>pos_ratio\<close> 1 (background empty) or 0
  (foreground empty), and every center it returns is the shifted position of an index of
  the non-empty set.
\<close>

theorem sampling_exhaustion_and_degraded:
  fixes label :: "('a::zero) ndarray" and image' :: "('b::linorder) ndarray option"
  assumes lab: "shape label = c # sp" "0 < c"
    and sz: "length size' = length sp" "list_all2 (\<lambda>m sz. sz \<le> int m) sp size'"
    and img: "case image' of None \<Rightarrow> True | Some img \<Rightarrow> tl (shape img) = sp \<and> shape img \<noteq> []"
    and rng: "rng_ok R"
  shows "\<exists>fg bg valid_start valid_end.
     fg_bg_indicies label image' image_threshold = Inr (fg, bg) \<and>
     valid_range sp size' = (valid_start, valid_end) \<and>
     ((\<exists>e. generate_pos_neg_label_crop_centers R label size' num_samples pos_ratio
              image' image_threshold s = Inl e) \<longleftrightarrow> fg = [] \<and> bg = []) \<and>
     (fg = [] \<and> bg = [] \<longrightarrow>
        generate_pos_neg_label_crop_centers R label size' num_samples pos_ratio
          image' image_threshold s = Inl (ValueError ''no sampling location available.'')) \<and>
     (fg \<noteq> [] \<and> bg \<noteq> [] \<longrightarrow>
        (\<exists>centers s'.
           generate_pos_neg_label_crop_centers R label size' num_samples pos_ratio
             image' image_threshold s = Inr (centers, [], s'))) \<and>
     (fg = [] \<and> bg \<noteq> [] \<longrightarrow>
        (\<exists>centers s'.
           generate_pos_neg_label_crop_centers R label size' num_samples pos_ratio
             image' image_threshold s =
             Inr (centers, [UnbalancedWarning (length fg) (length bg)], s') \<and>
           sample_centers R (shape label) valid_start valid_end fg bg 0 (nat num_samples) s =
             Inr (centers, s') \<and>
           (\<forall>c\<in>set centers. \<exists>k\<in>set bg.
              c = shift_center valid_start valid_end (tl (unravel (shape label) k))))) \<and>
     (fg \<noteq> [] \<and> bg = [] \<longrightarrow>
        (\<exists>centers s'.
           generate_pos_neg_label_crop_centers R label size' num_samples pos_ratio
             image' image_threshold s =
             Inr (centers, [UnbalancedWarning (length fg) (length bg)], s') \<and>
           sample_centers R (shape label) valid_start valid_end fg bg 1 (nat num_samples) s =
             Inr (centers, s') \<and>
           (\<forall>c\<in>set centers. \<exists>k\<in>set fg.
              c = shift_center valid_start valid_end (tl (unravel (shape label) k)))))"
proof -
  obtain fg bg where fb: "fg_bg_indicies label image' image_threshold = Inr (fg, bg)"
    and b0: "\<forall>k\<in>set fg \<union> set bg. k < prod_list sp"
    using fg_bg_indicies_ok[OF lab(1) img] by blast
  obtain vs ve where vr: "valid_range sp size' = (vs, ve)" by (cases "valid_range sp size'")
  have le: "prod_list sp \<le> prod_list (shape label)" using lab by simp
  have bound: "\<forall>k\<in>set fg \<union> set bg. k < prod_list (shape label)"
  proof
    fix k assume "k \<in> set fg \<union> set bg"
    then have "k < prod_list sp" using b0 by blast
    then show "k < prod_list (shape label)" using le by (rule less_le_trans)
  qed
  let ?gen = "generate_pos_neg_label_crop_centers R label size' num_samples pos_ratio
                image' image_threshold s"
  have gen: "?gen =
    (if fg = [] \<and> bg = [] then Inl (ValueError ''no sampling location available.'')
     else bind_err
            (sample_centers R (shape label) vs ve fg bg
               (if fg = [] \<or> bg = [] then (if fg = [] then 0 else 1) else pos_ratio)
               (nat num_samples) s)
            (\<lambda>(centers, s'). Inr (centers,
               (if fg = [] \<or> bg = [] then [UnbalancedWarning (length fg) (length bg)] else []),
               s')))"
    by (rule generate_unfold) (use sz lab(1) fb vr in simp_all)
  have both: "fg = [] \<and> bg = [] \<Longrightarrow>
              ?gen = Inl (ValueError ''no sampling location available.'')"
    by (simp add: gen)
  have fgbg: "\<exists>centers s'. ?gen = Inr (centers, [], s')" if "fg \<noteq> []" "bg \<noteq> []"
  proof -
    from sample_centers_ok[OF rng _ _ bound, of pos_ratio vs ve "nat num_samples" s] that
    obtain cs s' where "sample_centers R (shape label) vs ve fg bg pos_ratio (nat num_samples) s
                         = Inr (cs, s')" by blast
    then show ?thesis using that by (simp add: gen)
  qed
  have onlybg: "\<exists>centers s'. ?gen = Inr (centers, [UnbalancedWarning (length fg) (length bg)], s') \<and>
           sample_centers R (shape label) vs ve fg bg 0 (nat num_samples) s = Inr (centers, s') \<and>
           (\<forall>c\<in>set centers. \<exists>k\<in>set bg.
              c = shift_center vs ve (tl (unravel (shape label) k)))"
    if "fg = []" "bg \<noteq> []"
  proof -
    from sample_centers_ok[OF rng _ _ bound, of 0 vs ve "nat num_samples" s] that
    obtain cs s' where "sample_centers R (shape label) vs ve fg bg 0 (nat num_samples) s
                         = Inr (cs, s')"
      and "\<forall>c\<in>set cs. \<exists>k\<in>set bg. c = shift_center vs ve (tl (unravel (shape label) k))"
      by auto
    then show ?thesis using that by (simp add: gen)
  qed
  have onlyfg: "\<exists>centers s'. ?gen = Inr (centers, [UnbalancedWarning (length fg) (length bg)], s') \<and>
           sample_centers R (shape label) vs ve fg bg 1 (nat num_samples) s = Inr (centers, s') \<and>
           (\<forall>c\<in>set centers. \<exists>k\<in>set fg.
              c = shift_center vs ve (tl (unravel (shape label) k)))"
    if "fg \<noteq> []" "bg = []"
  proof -
    from sample_centers_ok[OF rng _ _ bound, of 1 vs ve "nat num_samples" s] that
    obtain cs s' where "sample_centers R (shape label) vs ve fg bg 1 (nat num_samples) s
                         = Inr (cs, s')"
      and "\<forall>c\<in>set cs. \<exists>k\<in>set fg. c = shift_center vs ve (tl (unravel (shape label) k))"
      by auto
    then show ?thesis using that by (simp add: gen)
  qed
  have iff: "(\<exists>e. ?gen = Inl e) \<longleftrightarrow> fg = [] \<and> bg = []"
  proof
    assume "\<exists>e. ?gen = Inl e"
    then show "fg = [] \<and> bg = []"
      using fgbg onlybg onlyfg by (cases "fg = []"; cases "bg = []") auto
  next
    assume "fg = [] \<and> bg = []"
    then show "\<exists>e. ?gen = Inl e" using both by blast
  qed
  show ?thesis
    using fb vr iff both fgbg onlybg onlyfg by blast
qed

theorem sampling_exhaustion_and_degraded_witness:
  "rng_ok example_source \<and>
   fg_bg_indicies example_label (Some example_image) 0 = Inr ([6], []) \<and>
   generate_pos_neg_label_crop_centers example_source example_label [2, 2] 3 (7 / 10)
       (Some example_image) 0 0 =
     Inr ([[1, 2], [1, 2], [1, 2]], [UnbalancedWarning 1 0], 6)"
proof -
  have lab: "shape example_label = 1 # [3, 4]" "0 < (1::nat)"
    by (simp_all add: example_label_def)
  have sz: "length [2, 2::int] = length [3, 4::nat]"
    "list_all2 (\<lambda>m sz. sz \<le> int m) [3, 4] [2, 2]" by simp_all
  have img: "case Some example_image of None \<Rightarrow> True
             | Some img \<Rightarrow> tl (shape img) = [3, 4] \<and> shape img \<noteq> []"
    by (simp add: example_image_def)
  have fb: "fg_bg_indicies example_label (Some example_image) 0 = Inr ([6], [])"
    by code_simp
  have ev: "sample_centers example_source (shape example_label)
              (fst (valid_range [3, 4] [2, 2])) (snd (valid_range [3, 4] [2, 2])) [6] [] 1 (nat 3) 0 =
            Inr ([[1, 2], [1, 2], [1, 2]], 6)"
    by code_simp
  from sampling_exhaustion_and_degraded[OF lab sz img rng_ok_example, of 0 3 "7 / 10" 0] fb ev
  have "generate_pos_neg_label_crop_centers example_source example_label [2, 2] 3 (7 / 10)
       (Some example_image) 0 0 =
     Inr ([[1, 2], [1, 2], [1, 2]], [UnbalancedWarning 1 0], 6)"
    by auto
  then show ?thesis using rng_ok_example fb by simp
qed

lemma floor_half:
  fixes s :: int
  shows "\<lfloor>(of_int a - of_int s / 2 :: rat)\<rfloor> = a - (s + 1) div 2"
proof -
  define q r where "q = s div 2" and "r = s mod 2"
  have s: "s = 2 * q + r" and r: "r = 0 \<or> r = 1"
    unfolding q_def r_def by presburger+
  have d: "(2 * q + r + 1) div 2 = q + r" using r by auto
  have "\<lfloor>(of_int a - of_int (2 * q + r) / 2 :: rat)\<rfloor> = a - (q + r)"
  proof (rule floor_unique)
    show "of_int (a - (q + r)) \<le> (of_int a - of_int (2 * q + r) / 2 :: rat)"
      using r by (auto simp: field_simps)
    show "(of_int a - of_int (2 * q + r) / 2 :: rat) < of_int (a - (q + r)) + 1"
      using r by (auto simp: field_simps)
  qed
  then show ?thesis unfolding s d .
qed

lemma astype_uint16_small:
  assumes "0 \<le> x" "\<lfloor>x\<rfloor> < 65536"
  shows "uint (astype_uint16 x) = \<lfloor>x\<rfloor>"
proof -
  have "0 \<le> \<lfloor>x\<rfloor>" using assms(1) by simp
  then have "\<lfloor>x\<rfloor> mod 65536 = \<lfloor>x\<rfloor>" using assms(2) by simp
  then show ?thesis using assms(1) by (simp add: astype_uint16_def uint_word_of_int)
qed

lemma valid_end_small:
  fixes m :: nat and sz :: int
  assumes "sz \<le> int m" "int m + 1 - (sz + 1) div 2 < 65536"
  shows "uint (astype_uint16 (of_nat m + 1 - of_int sz / 2)) = int m + 1 - (sz + 1) div 2"
    and "sz div 2 < int m + 1 - (sz + 1) div 2"
proof -
  have fl: "\<lfloor>(of_nat m + 1 - of_int sz / 2 :: rat)\<rfloor> = int m + 1 - (sz + 1) div 2"
    using floor_half[of "int m + 1" sz] by simp
  show lt: "sz div 2 < int m + 1 - (sz + 1) div 2" using assms(1) by linarith
  have "0 \<le> int m + 1 - (sz + 1) div 2" using assms(1) by linarith
  then have "0 \<le> (of_nat m + 1 - of_int sz / 2 :: rat)"
    using fl by (metis floor_less_zero linorder_not_less)
  then show "uint (astype_uint16 (of_nat m + 1 - of_int sz / 2)) = int m + 1 - (sz + 1) div 2"
    using astype_uint16_small[of "of_nat m + 1 - of_int sz / 2"] fl assms(2) by simp
qed

lemma valid_range_small:
  assumes len: "length size' = length sp"
    and le: "list_all2 (\<lambda>m sz. sz \<le> int m) sp size'"
    and small: "\<forall>i<length sp. int (sp ! i) + 1 - (size' ! i + 1) div 2 < 65536"
    and vr: "valid_range sp size' = (vs, ve)"
    and i: "i < length sp"
  shows "length vs = length sp" "length ve = length sp"
    "vs ! i = size' ! i div 2"
    "uint (ve ! i) = int (sp ! i) + 1 - (size' ! i + 1) div 2"
    "vs ! i < uint (ve ! i)"
proof -
  let ?e = "astype_uint16 (of_nat (sp ! i) + 1 - of_int (size' ! i) / 2)"
  have szi: "size' ! i \<le> int (sp ! i)" using le i by (simp add: list_all2_conv_all_nth)
  have sm: "int (sp ! i) + 1 - (size' ! i + 1) div 2 < 65536" using small i by simp
  note ve = valid_end_small[OF szi sm]
  have vs: "vs = map (\<lambda>s. s div 2) size'" using vr by (simp add: valid_range_def Let_def)
  show "length vs = length sp" by (simp add: vs len)
  show "length ve = length sp" using vr len by (auto simp: valid_range_def Let_def)
  show vsi: "vs ! i = size' ! i div 2" using i len by (simp add: vs)
  have "ve ! i = (if size' ! i div 2 = uint ?e then ?e + 1 else ?e)"
    using vr i len by (auto simp: valid_range_def Let_def)
  then have "ve ! i = ?e" using ve by simp
  then show "uint (ve ! i) = int (sp ! i) + 1 - (size' ! i + 1) div 2" using ve(1) by simp
  then show "vs ! i < uint (ve ! i)" using ve(2) vsi by simp
qed

lemma shift_center_in_range:
  assumes "i < length center" "valid_start ! i < uint (valid_end ! i)"
  shows "valid_start ! i \<le> shift_center valid_start valid_end center ! i"
    and "shift_center valid_start valid_end center ! i < uint (valid_end ! i)"
  using assms by (simp_all add: shift_center_def nth_enumerate_eq Let_def)

lemma length_shift_center [simp]: "length (shift_center vs ve center) = length center"
  by (simp add: shift_center_def)

lemma length_unravel [simp]: "length (unravel sh k) = length sh"
  by (induction sh arbitrary: k) simp_all

lemma sample_centers_shifted:
  assumes "sample_centers R sh vs ve fg bg pos_ratio n s = Inr (cs, s')"
  shows "\<forall>c\<in>set cs. \<exists>center. length center = length sh - 1 \<and> c = shift_center vs ve center"
  using assms
proof (induction n arbitrary: s cs)
  case 0
  then show ?case by simp
next
  case (Suc n)
  obtain u s1 where r: "rs_rand R s = (u, s1)" by (cases "rs_rand R s")
  let ?use = "if u < pos_ratio then fg else bg"
  obtain j s2 where ri: "rs_randint R (length ?use) s1 = (j, s2)"
    by (cases "rs_randint R (length ?use) s1")
  from Suc.prems obtain center cs' where
    c: "unravel_index (?use ! j) sh = Inr center"
    and rec: "sample_centers R sh vs ve fg bg pos_ratio n s2 = Inr (cs', s')"
    and cs: "cs = shift_center vs ve (tl center) # cs'"
    by (auto simp: r ri Let_def bind_err_def split: if_splits sum.splits)
  have "length (tl center) = length sh - 1"
    using c by (auto simp: unravel_index_def split: if_splits)
  then have "\<exists>ctr. length ctr = length sh - 1 \<and>
               shift_center vs ve (tl center) = shift_center vs ve ctr"
    by blast
  then show ?case using Suc.IH[OF rec] cs by auto
qed

lemma crop_centers_in_valid_range:
  fixes label :: "('a::zero) ndarray" and image' :: "('b::linorder) ndarray option"
  assumes res: "generate_pos_neg_label_crop_centers R label size' num_samples pos_ratio
                  image' image_threshold s = Inr (centers, ws, s')"
    and lab: "shape label = c # sp"
    and small: "\<forall>i<length sp. int (sp ! i) + 1 - (size' ! i + 1) div 2 < 65536"
    and ctr: "ctr \<in> set centers" and i: "i < length sp"
  shows "size' ! i div 2 \<le> ctr ! i \<and> ctr ! i < int (sp ! i) + 1 - (size' ! i + 1) div 2"
proof -
  obtain vs ve where vr: "valid_range sp size' = (vs, ve)" by (cases "valid_range sp size'")
  from res lab have len: "length size' = length sp"
    and le: "list_all2 (\<lambda>m sz. sz \<le> int m) sp size'"
    by (auto simp: generate_pos_neg_label_crop_centers_def Let_def list_all2_conv_all_nth
             split: if_splits)
  from res lab vr len le obtain fg bg pr where
    "sample_centers R (shape label) vs ve fg bg pr (nat num_samples) s = Inr (centers, s')"
    by (auto simp: generate_pos_neg_label_crop_centers_def Let_def bind_err_def
                   list_all2_conv_all_nth
             split: if_splits sum.splits prod.splits)
  from sample_centers_shifted[OF this] ctr lab obtain center where
    lc: "length center = length sp" and c: "ctr = shift_center vs ve center"
    by auto
  note f = valid_range_small[OF len le small vr i]
  have "vs ! i \<le> ctr ! i" "ctr ! i < uint (ve ! i)"
    unfolding c using shift_center_in_range[of i center vs ve] i lc f(5) by simp_all
  then show ?thesis using f(3,4) by simp
qed

lemma filter_upt_single:
  assumes "a < m" "P a" "\<forall>i<m. i \<noteq> a \<longrightarrow> \<not> P i"
  shows "filter P [0..<m] = [a]"
proof -
  obtain k where m: "m = a + k" using assms(1) by (auto simp: less_iff_Suc_add)
  have "[0..<m] = [0..<a] @ [a..<m]"
    unfolding m by (rule upt_add_eq_append) simp
  also have "[a..<m] = a # [Suc a..<m]" using assms(1) by (rule upt_conv_Cons)
  finally have split: "[0..<m] = [0..<a] @ [a] @ [Suc a..<m]" by simp
  have "filter P [0..<a] = []" using assms by (auto simp: filter_empty_conv)
  moreover have "filter P [Suc a..<m] = []" using assms by (auto simp: filter_empty_conv)
  ultimately show ?thesis using assms(2) by (simp add: split)
qed

lemma single_voxel_flat:
  assumes "a < m"
  shows "np_any_axis0 (map_array (\<lambda>v. v \<noteq> 0) (single_voxel m a)) = Inr (map (\<lambda>k. k = a) [0..<m])"
proof -
  have "(map (\<lambda>v. v \<noteq> 0) (replicate a (0::int) @ [1] @ replicate (m - a - 1) 0)) ! k = (k = a)"
    if "k < m" for k
    using that assms by (auto simp: nth_append nth_Cons')
  then show ?thesis
    by (simp add: np_any_axis0_def map_array_def single_voxel_def del: map_append map_replicate)
qed

lemma single_voxel_fg_bg:
  assumes "a < m" "0 < a"
  shows "\<exists>bg. fg_bg_indicies (single_voxel m a) (None :: int ndarray option) 0 = Inr ([a], bg) \<and> bg \<noteq> []"
proof -
  let ?lf = "map (\<lambda>k. k = a) [0..<m]"
  have fg: "nonzero ?lf = [a]"
    unfolding nonzero_def using assms
    by (intro filter_upt_single) simp_all
  have "0 \<in> set (nonzero (map Not ?lf))" using assms by (simp add: nonzero_def)
  then have bg: "nonzero (map Not ?lf) \<noteq> []" by auto
  show ?thesis
    using fg bg by (simp add: fg_bg_indicies_def single_voxel_flat[OF assms(1)] Let_def)
qed

lemma single_voxel_center:
  assumes a: "a < m" "0 < a" and sz: "sz \<le> int m" and rng: "rng_ok R"
    and vr: "valid_range [m] [sz] = (vs, ve)"
  shows "\<exists>s'. generate_pos_neg_label_crop_centers R (single_voxel m a) [sz] 1 1
                 (None :: int ndarray option) 0 s =
               Inr ([shift_center vs ve [a]], [], s')"
proof -
  obtain bg where fb: "fg_bg_indicies (single_voxel m a) (None :: int ndarray option) 0 = Inr ([a], bg)"
    and bg: "bg \<noteq> []"
    using single_voxel_fg_bg[OF a] by blast
  obtain u s1 where r: "rs_rand R s = (u, s1)" by (cases "rs_rand R s")
  have "0 \<le> fst (rs_rand R s) \<and> fst (rs_rand R s) < 1" using rng by (simp add: rng_ok_def)
  then have u: "u < 1" by (simp add: r)
  obtain j s2 where ri: "rs_randint R 1 s1 = (j, s2)" by (cases "rs_randint R 1 s1")
  have "fst (rs_randint R 1 s1) < 1"
    using rng[unfolded rng_ok_def, THEN conjunct2, rule_format, of 1 s1] by simp
  then have j: "j = 0" using ri by simp
  have un: "unravel_index a [1, m] = Inr [0, a]" using a by (simp add: unravel_index_def)
  have sc: "sample_centers R (shape (single_voxel m a)) vs ve [a] bg 1 (Suc 0) s =
            Inr ([shift_center vs ve [a]], s2)"
    using u ri[unfolded j] un by (simp add: r single_voxel_def)
  have "generate_pos_neg_label_crop_centers R (single_voxel m a) [sz] 1 1
                 (None :: int ndarray option) 0 s =
        (if [a] = [] \<and> bg = [] then Inl (ValueError ''no sampling location available.'')
         else bind_err
            (sample_centers R (shape (single_voxel m a)) vs ve [a] bg
               (if [a] = [] \<or> bg = [] then (if [a] = [] then 0 else 1) else 1)
               (nat 1) s)
            (\<lambda>(centers, s'). Inr (centers,
               (if [a] = [] \<or> bg = [] then [UnbalancedWarning (length [a]) (length bg)] else []),
               s')))"
    by (rule generate_unfold) (use sz fb vr in \<open>simp_all add: single_voxel_def\<close>)
  then show ?thesis using bg by (simp add: sc del: sample_centers.simps)
qed

text \<open>
  Claim C2 says that every returned center lies in \<open>[valid_start, valid_end)\<close> with
  \<open>valid_start = size // 2\<close> and \<open>valid_end = spatial_shape + 1 - size / 2\<close>. Lemma
  \<open>crop_centers_in_valid_range\<close> shows this as long as \<open>valid_end\<close> fits 16 bits. The code
  stores \<open>valid_end\<close> as \<open>uint16\<close>: for a label of shape \<open>(1, 140000)\<close> and \<open>size = (140000,)\<close>
  the only valid center is 70000 (\<open>valid_start = 70000\<close>, \<open>valid_end = 70001\<close>), the stored
  \<open>valid_end\<close> is \<open>70001 mod 65536 = 4465\<close>, and the voxel drawn at position 66000 is shifted
  to 4464.
\<close>

theorem crop_center_uint16_wrap:
  "valid_range [140000] [140000] = ([70000], [4465]) \<and>
   (\<exists>s'. generate_pos_neg_label_crop_centers example_source wide_label [140000] 1 1
            (None :: int ndarray option) 0 0 =
          Inr ([[4464]], [], s'))"
proof -
  have vr: "valid_range [140000] [140000] = ([70000], [4465])"
    by (simp add: valid_range_def astype_uint16_def)
  have sh: "shift_center [70000] [4465] [66000] = [4464]"
    by (simp add: shift_center_def enumerate_eq_zip)
  have "\<exists>s'. generate_pos_neg_label_crop_centers example_source (single_voxel 140000 66000)
                 [140000] 1 1 (None :: int ndarray option) 0 0 =
               Inr ([shift_center [70000] [4465] [66000]], [], s')"
    by (rule single_voxel_center[OF _ _ _ rng_ok_example vr]) simp_all
  then show ?thesis unfolding sh wide_label_def using vr by blast
qed

section \<open>AffineBuilder: properties\<close>

lemma sum_list_delta_right:
  fixes f :: "nat \<Rightarrow> real"
  assumes "j < n"
  shows "sum_list (map (\<lambda>k. f k * (if k = j then 1 else 0)) [0..<n]) = f j"
proof -
  have "(\<lambda>k. f k * (if k = j then 1 else 0)) = (\<lambda>k. if k = j then f k else 0)"
    by auto
  then have "sum_list (map (\<lambda>k. f k * (if k = j then 1 else 0)) [0..<n]) =
        (\<Sum>k\<in>set [0..<n]. if k = j then f k else 0)"
    by (simp add: interv_sum_list_conv_sum_set_nat)
  also have "\<dots> = f j" using assms by (simp add: sum.delta)
  finally show ?thesis .
qed

lemma sum_list_delta_left:
  fixes f :: "nat \<Rightarrow> real"
  assumes "j < n"
  shows "sum_list (map (\<lambda>k. (if k = j then 1 else 0) * f k) [0..<n]) = f j"
  using sum_list_delta_right[OF assms, of f] by (simp add: mult.commute)

lemma valid_index2: "valid_index [m, n] ks \<longleftrightarrow> (\<exists>i j. ks = [i, j] \<and> i < m \<and> j < n)"
  by (auto simp: valid_index_def list_all2_Cons2)

lemma matmul_Inr:
  assumes "shape A = [m, n]" "shape B = [n, p]"
  shows "matmul A B =
         Inr (tabulate [m, p]
                (\<lambda>ks. sum_list (map (\<lambda>k. elem A [ks ! 0, k] * elem B [k, ks ! 1]) [0..<n])))"
  by (simp add: matmul_def assms)

lemma matmul_InrD:
  assumes "matmul A B = Inr M" "shape A = [m, n]" "shape B = [n', p]"
  shows "n' = n \<and> M = tabulate [m, p]
                (\<lambda>ks. sum_list (map (\<lambda>k. elem A [ks ! 0, k] * elem B [k, ks ! 1]) [0..<n]))"
  using assms by (auto simp: matmul_def split: if_splits)

lemma elem_matmul:
  assumes "matmul A B = Inr M" "shape A = [m, n]" "shape B = [n', p]" "i < m" "j < p"
  shows "elem M [i, j] = sum_list (map (\<lambda>k. elem A [i, k] * elem B [k, j]) [0..<n])"
  using matmul_InrD[OF assms(1-3)] assms(4,5)
  by (simp add: elem_tabulate valid_index2)

lemma affine_bottom_row_iff:
  "affine_bottom_row M \<longleftrightarrow>
     (\<exists>m n. shape M = [m, n] \<and> 0 < m \<and> 0 < n \<and>
            (\<forall>j<n. elem M [m - 1, j] = (if j = n - 1 then 1 else 0)))"
  by (auto simp: affine_bottom_row_def list_all_iff split: list.splits)

lemma matmul_bottom_row:
  assumes A: "affine_bottom_row A" and B: "affine_bottom_row B" and M: "matmul A B = Inr M"
  shows "affine_bottom_row M"
proof -
  from A obtain m n where sa: "shape A = [m, n]" and m: "0 < m" and n: "0 < n"
    and ra: "\<And>k. k < n \<Longrightarrow> elem A [m - 1, k] = (if k = n - 1 then 1 else 0)"
    unfolding affine_bottom_row_iff by blast
  from B obtain n' p where sb: "shape B = [n', p]" and p: "0 < p"
    and rb: "\<And>j. j < p \<Longrightarrow> elem B [n' - 1, j] = (if j = p - 1 then 1 else 0)"
    unfolding affine_bottom_row_iff by blast
  from matmul_InrD[OF M sa sb] have nn: "n' = n" and sm: "shape M = [m, p]" by simp_all
  have "elem M [m - 1, j] = (if j = p - 1 then 1 else 0)" if j: "j < p" for j
  proof -
    have "elem M [m - 1, j] =
          sum_list (map (\<lambda>k. elem A [m - 1, k] * elem B [k, j]) [0..<n])"
      using elem_matmul[OF M sa sb _ j] m by simp
    also have "\<dots> = sum_list (map (\<lambda>k. (if k = n - 1 then 1 else 0) * elem B [k, j]) [0..<n])"
      by (rule arg_cong[where f = sum_list], rule map_cong[OF refl]) (use ra in force)
    also have "\<dots> = elem B [n - 1, j]" using n by (intro sum_list_delta_left) simp
    also have "\<dots> = (if j = p - 1 then 1 else 0)" using rb[OF j] nn by simp
    finally show ?thesis .
  qed
  then show ?thesis unfolding affine_bottom_row_iff using sm m p by blast
qed

lemma wf_np_array4:
  "wf_array (np_array [[a1, a2, a3, a4], [b1, b2, b3, b4], [c1, c2, c3, c4], [d1, d2, d3, d4]])"
  "shape (np_array [[a1, a2, a3, a4], [b1, b2, b3, b4], [c1, c2, c3, c4], [d1, d2, d3, d4]]) = [4, 4]"
  by (simp_all add: np_array_def wf_array_def)

lemma wf_np_array3:
  "wf_array (np_array [[a1, a2, a3], [b1, b2, b3], [c1, c2, c3]])"
  "shape (np_array [[a1, a2, a3], [b1, b2, b3], [c1, c2, c3]]) = [3, 3]"
  by (simp_all add: np_array_def wf_array_def)

lemma bottom_row_np_array4:
  "affine_bottom_row (np_array [[a1, a2, a3, a4], [b1, b2, b3, b4], [c1, c2, c3, c4], [0, 0, 0, 1]])"
  by (simp add: affine_bottom_row_def np_array_def elem_def)

lemma bottom_row_np_array3:
  "affine_bottom_row (np_array [[a1, a2, a3], [b1, b2, b3], [0, 0, 1]])"
  by (simp add: affine_bottom_row_def np_array_def elem_def)

lemma create_rotate_3_cases:
  "length radians = 0 \<Longrightarrow> create_rotate 3 radians = Inr None"
  "length radians = 1 \<Longrightarrow> create_rotate 3 radians = Inr (Some (rot_axis1 (radians ! 0)))"
  "length radians = 2 \<Longrightarrow> create_rotate 3 radians =
     bind_err (matmul (rot_axis1 (radians ! 0)) (rot_axis2 (radians ! 1))) (\<lambda>m. Inr (Some m))"
  "3 \<le> length radians \<Longrightarrow> create_rotate 3 radians =
     bind_err (matmul (rot_axis1 (radians ! 0)) (rot_axis2 (radians ! 1)))
       (\<lambda>m. bind_err (matmul m (rot_axis3 (radians ! 2))) (\<lambda>r. Inr (Some r)))"
  by (simp_all add: create_rotate_def rot_axis1_def rot_axis2_def rot_axis3_def Let_def bind_err_def
        split: sum.splits)

lemma rot_shape [simp]:
  "shape (rot_axis1 t) = [4, 4]" "shape (rot_axis2 t) = [4, 4]" "shape (rot_axis3 t) = [4, 4]"
  "shape identity4 = [4, 4]"
  by (simp_all add: rot_axis1_def rot_axis2_def rot_axis3_def identity4_def wf_np_array4)

lemma rot_wf [simp]:
  "wf_array (rot_axis1 t)" "wf_array (rot_axis2 t)" "wf_array (rot_axis3 t)" "wf_array identity4"
  by (simp_all add: rot_axis1_def rot_axis2_def rot_axis3_def identity4_def wf_np_array4)

lemma rot_bottom_row:
  "affine_bottom_row (rot_axis1 t)" "affine_bottom_row (rot_axis2 t)"
  "affine_bottom_row (rot_axis3 t)" "affine_bottom_row identity4"
  by (simp_all add: rot_axis1_def rot_axis2_def rot_axis3_def identity4_def bottom_row_np_array4)

lemma elem_identity4: "i < 4 \<Longrightarrow> j < 4 \<Longrightarrow> elem identity4 [i, j] = (if i = j then 1 else 0)"
proof -
  assume "i < 4" "j < 4"
  then have "i \<in> {0, 1, 2, 3}" "j \<in> {0, 1, 2, 3}" by auto
  then show ?thesis by (auto simp: identity4_def np_array_def elem_def)
qed

lemma matmul_identity4:
  assumes wf: "wf_array A" and sh: "shape A = [m, 4]"
  shows "matmul A identity4 = Inr A"
proof -
  let ?M = "tabulate [m, 4]
              (\<lambda>ks. sum_list (map (\<lambda>k. elem A [ks ! 0, k] * elem identity4 [k, ks ! 1]) [0..<4]))"
  have "?M = A"
  proof (rule array_eqI)
    fix idx assume "valid_index (shape ?M) idx"
    then obtain i j where idx: "idx = [i, j]" and i: "i < m" and j: "j < 4"
      by (auto simp: valid_index2)
    have "elem ?M [i, j] = sum_list (map (\<lambda>k. elem A [i, k] * elem identity4 [k, j]) [0..<4])"
      using i j by (simp add: elem_tabulate valid_index2)
    also have "\<dots> = sum_list (map (\<lambda>k. elem A [i, k] * (if k = j then 1 else 0)) [0..<4])"
      by (rule arg_cong[where f = sum_list], rule map_cong[OF refl])
         (use j in \<open>simp add: elem_identity4\<close>)
    also have "\<dots> = elem A [i, j]" by (rule sum_list_delta_right[OF j])
    finally show "elem ?M idx = elem A idx" by (simp add: idx)
  qed (simp_all add: wf sh)
  then show ?thesis using matmul_Inr[OF sh, of identity4 4] by simp
qed

lemma matmul_44:
  assumes "shape A = [4, 4]" "shape B = [4, 4]"
  shows "\<exists>M. matmul A B = Inr M \<and> shape M = [4, 4] \<and> wf_array M"
  using matmul_Inr[OF assms] by simp

text \<open>
  Claim C6, as the code has it. For \<open>spatial_dims = 3\<close> and one, two or three angles,
  \<open>create_rotate\<close> returns the product of the elementary rotations about axes 1, 2 and 3, in
  that order, where a rotation whose angle is not supplied is the identity: with one
  angle the rotation about axis 1, with two the product of the first two rotations.
\<close>

theorem create_rotate_3_product:
  assumes "radians \<noteq> []" and "length radians \<le> 3"
  shows "\<exists>M. rotate3_spec radians = Inr M \<and> create_rotate 3 radians = Inr (Some M) \<and>
             (length radians = 1 \<longrightarrow> M = rot_axis1 (radians ! 0)) \<and>
             (length radians = 2 \<longrightarrow>
                matmul (rot_axis1 (radians ! 0)) (rot_axis2 (radians ! 1)) = Inr M)"
proof -
  let ?r1 = "rot_axis1 (radians ! 0)" and ?r2 = "rot_axis2 (radians ! 1)"
  let ?r3 = "rot_axis3 (radians ! 2)"
  from assms have "0 < length radians" by simp
  with assms(2) consider "length radians = 1" | "length radians = 2" | "length radians = 3"
    by linarith
  then show ?thesis
  proof cases
    case 1
    have "rotate3_spec radians = Inr ?r1"
      using 1 by (simp add: rotate3_spec_def matmul_identity4)
    then show ?thesis using 1 by (simp add: create_rotate_3_cases)
  next
    case 2
    obtain M where M: "matmul ?r1 ?r2 = Inr M" "shape M = [4, 4]" "wf_array M"
      using matmul_44[of ?r1 ?r2] by auto
    have "rotate3_spec radians = Inr M"
      using 2 M by (simp add: rotate3_spec_def matmul_identity4)
    then show ?thesis using 2 M by (simp add: create_rotate_3_cases)
  next
    case 3
    obtain M where M: "matmul ?r1 ?r2 = Inr M" "shape M = [4, 4]" "wf_array M"
      using matmul_44[of ?r1 ?r2] by auto
    obtain N where N: "matmul M ?r3 = Inr N" "shape N = [4, 4]" "wf_array N"
      using matmul_44[of M ?r3] M by auto
    have "rotate3_spec radians = Inr N"
      using 3 M N by (simp add: rotate3_spec_def)
    then show ?thesis using 3 M N by (simp add: create_rotate_3_cases)
  qed
qed

theorem create_rotate_3_product_witness:
  "[pi / 2, pi] \<noteq> [] \<and> length [pi / 2, pi] \<le> 3 \<and>
   (\<exists>M. rotate3_spec [pi / 2, pi] = Inr M \<and> create_rotate 3 [pi / 2, pi] = Inr (Some M))"
  using create_rotate_3_product[of "[pi / 2, pi]"] by auto

text \<open>
  With no angle no branch assigns \<open>affine\<close>, and the function returns \<open>None\<close>, where the
  product of three identities is the identity.
\<close>

theorem create_rotate_3_no_angle_counterexample:
  "create_rotate 3 [] = Inr None \<and> rotate3_spec [] = Inr identity4"
  by (simp add: create_rotate_3_cases rotate3_spec_def matmul_identity4)




lemma create_rotate_bottom_row:
  assumes "create_rotate spatial_dims radians = Inr (Some M)"
  shows "affine_bottom_row M"
proof -
  let ?r1 = "rot_axis1 (radians ! 0)" and ?r2 = "rot_axis2 (radians ! 1)"
  let ?r3 = "rot_axis3 (radians ! 2)"
  from assms consider "spatial_dims = 2" "1 \<le> length radians" | "spatial_dims = 3"
    by (auto simp: create_rotate_def split: if_splits)
  then show ?thesis
  proof cases
    case 1
    then show ?thesis using assms
      by (auto simp: create_rotate_def Let_def bottom_row_np_array3)
  next
    case 2
    consider "length radians = 0" | "length radians = 1" | "length radians = 2"
      | "3 \<le> length radians" by linarith
    then show ?thesis
    proof cases
      case 1
      then show ?thesis using assms 2 by (simp add: create_rotate_3_cases)
    next
      case 2
      then show ?thesis using assms \<open>spatial_dims = 3\<close>
        by (auto simp: create_rotate_3_cases rot_bottom_row)
    next
      case 3
      then have "matmul ?r1 ?r2 = Inr M"
        using assms \<open>spatial_dims = 3\<close>
        by (auto simp: create_rotate_3_cases bind_err_def split: sum.splits)
      then show ?thesis by (rule matmul_bottom_row[OF rot_bottom_row(1) rot_bottom_row(2)])
    next
      case 4
      then obtain N where N: "matmul ?r1 ?r2 = Inr N" and M: "matmul N ?r3 = Inr M"
        using assms \<open>spatial_dims = 3\<close>
        by (auto simp: create_rotate_3_cases bind_err_def split: sum.splits)
      have "affine_bottom_row N"
        using N by (rule matmul_bottom_row[OF rot_bottom_row(1) rot_bottom_row(2)])
      then show ?thesis using rot_bottom_row(3) M by (rule matmul_bottom_row)
    qed
  qed
qed

lemma create_shear_bottom_row:
  assumes "create_shear spatial_dims coefs = Inr M"
  shows "affine_bottom_row M"
  using assms
  by (auto simp: create_shear_def Let_def bottom_row_np_array3 bottom_row_np_array4
           split: if_splits)

lemma create_scale_bottom_row: "affine_bottom_row (create_scale spatial_dims scaling_factor)"
proof -
  define v where "v = py_take spatial_dims (pad_while spatial_dims 1 scaling_factor) @ [1::real]"
  have len: "0 < length v" by (simp add: v_def)
  have last: "v ! (length v - 1) = 1" by (simp add: v_def nth_append)
  have "elem (np_diag v) [length v - 1, j] = (if j = length v - 1 then 1 else 0)"
    if "j < length v" for j
    using that len last by (auto simp: np_diag_def elem_tabulate valid_index2)
  then have "affine_bottom_row (np_diag v)"
    unfolding affine_bottom_row_iff using len by (auto simp: np_diag_def)
  then show ?thesis by (simp add: create_scale_def v_def Let_def)
qed

lemma setitem_entry:
  assumes sh: "shape A = [m, n]" and i: "i < m" and j: "j < n"
  shows "setitem A [Idx (int i), Idx (int j)] (np_scalar a) =
         Inr (tabulate [m, n] (\<lambda>ks. if ks = [i, j] then a else elem A ks))"
proof -
  have r: "resolve (shape A) [Idx (int i), Idx (int j)] = Inr [RIdx i, RIdx j]"
    using i j by (simp add: sh)
  have b: "broadcastable (shape (np_scalar a)) (region_shape [RIdx i, RIdx j])"
    by (simp add: np_scalar_def broadcastable_def)
  have "tabulate [m, n]
          (\<lambda>ks. case rel_index [RIdx i, RIdx j] ks of
                  None \<Rightarrow> elem A ks
                | Some js \<Rightarrow> elem (np_scalar a) (bcast_index (shape (np_scalar a)) js)) =
        tabulate [m, n] (\<lambda>ks. if ks = [i, j] then a else elem A ks)"
  proof (rule tabulate_cong)
    fix ks assume "valid_index [m, n] ks"
    then obtain k1 k2 where ks: "ks = [k1, k2]" by (auto simp: valid_index2)
    have e: "elem (np_scalar a) (bcast_index (shape (np_scalar a)) []) = a"
      by (simp add: np_scalar_def bcast_index_def elem_def)
    show "(case rel_index [RIdx i, RIdx j] ks of
                  None \<Rightarrow> elem A ks
                | Some js \<Rightarrow> elem (np_scalar a) (bcast_index (shape (np_scalar a)) js)) =
          (if ks = [i, j] then a else elem A ks)"
      by (simp add: ks e)
  qed
  then show ?thesis using b i j by (simp add: setitem_def sh)
qed

lemma translate_fold:
  assumes "\<forall>(i, a)\<in>set l. i < d" "translate_inv d A"
  shows "\<exists>M. foldl (\<lambda>acc (i, a).
                   bind_err acc
                     (\<lambda>affine. setitem affine [Idx (int i), Idx (int d)] (np_scalar a)))
            (Inr A) l = Inr M \<and> translate_inv d M"
  using assms
proof (induction l arbitrary: A)
  case Nil
  then show ?case by simp
next
  case (Cons x l)
  obtain i a where x: "x = (i, a)" by (cases x)
  have i: "i < d" using Cons.prems(1) x by simp
  let ?A' = "tabulate [Suc d, Suc d] (\<lambda>ks. if ks = [i, d] then a else elem A ks)"
  have s: "setitem A [Idx (int i), Idx (int d)] (np_scalar a) = Inr ?A'"
    using Cons.prems(2) i by (intro setitem_entry) (simp_all add: translate_inv_def)
  have "translate_inv d ?A'"
    using Cons.prems(2) i by (simp add: translate_inv_def elem_tabulate valid_index2)
  moreover have "\<forall>(i, a)\<in>set l. i < d" using Cons.prems(1) by simp
  ultimately show ?case using Cons.IH[of ?A'] by (simp add: x s)
qed

lemma create_translate_bottom_row:
  assumes d: "0 \<le> spatial_dims" and M: "create_translate spatial_dims shift = Inr M"
  shows "affine_bottom_row M"
proof -
  define d where "d = nat spatial_dims"
  have sd: "spatial_dims = int d" using assms(1) by (simp add: d_def)
  let ?eye = "tabulate [Suc d, Suc d] (\<lambda>ks. if ks ! 0 = ks ! 1 then (1::real) else 0)"
  have eye: "np_eye (spatial_dims + 1) = Inr ?eye"
    by (simp add: np_eye_def sd nat_add_distrib)
  have inv: "translate_inv d ?eye"
    by (auto simp: translate_inv_def elem_tabulate valid_index2)
  have "\<forall>(i, a)\<in>set (enumerate 0 (py_take spatial_dims shift)). i < d"
    by (auto simp: in_set_enumerate_eq py_take_def sd)
  from translate_fold[OF this inv] obtain M' where
    "foldl (\<lambda>acc (i, a).
                   bind_err acc
                     (\<lambda>affine. setitem affine [Idx (int i), Idx (int d)] (np_scalar a)))
            (Inr ?eye) (enumerate 0 (py_take spatial_dims shift)) = Inr M'"
    and inv': "translate_inv d M'" by blast
  then have "M = M'" using M eye by (simp add: create_translate_def sd)
  then show ?thesis using inv' unfolding affine_bottom_row_iff translate_inv_def by auto
qed

subsection \<open>The bottom row of builder matrices and of their float64 products\<close>

lemma f64_of_real_0: "f64_of_real 0 = Fin 0"
  by (simp add: f64_of_real_def f64_max_def)

lemma f64_of_real_1: "f64_of_real 1 = Fin 1"
  by (simp add: f64_of_real_def f64_max_def)

lemma f64_mult_zero_fin: "is_fin v \<Longrightarrow> f64_mult (Fin 0) v = Fin 0"
  by (cases v) (simp_all add: f64_of_real_0)

lemma f64_mult_one: "f64_mult (Fin 1) (Fin 0) = Fin 0" "f64_mult (Fin 1) (Fin 1) = Fin 1"
  by (simp_all add: f64_of_real_0 f64_of_real_1)

lemma f64_add_zero: "f64_add (Fin 0) (Fin 0) = Fin 0" "f64_add (Fin 0) (Fin 1) = Fin 1"
  "f64_add (Fin 1) (Fin 0) = Fin 1"
  by (simp_all add: f64_of_real_0 f64_of_real_1)

lemma foldl_f64_zero:
  assumes "\<And>k. k \<in> set ks \<Longrightarrow> t k = Fin 0"
  shows "foldl (\<lambda>acc k. f64_add acc (t k)) (Fin 0) ks = Fin 0"
  using assms by (induction ks rule: rev_induct) (simp_all add: f64_of_real_0)

lemma foldl_f64_last:
  assumes "\<And>k. k < n \<Longrightarrow> t k = Fin 0" and "t n = v" and "v = Fin 0 \<or> v = Fin 1"
  shows "foldl (\<lambda>acc k. f64_add acc (t k)) (Fin 0) [0..<Suc n] = v"
proof -
  have "foldl (\<lambda>acc k. f64_add acc (t k)) (Fin 0) [0..<n] = Fin 0"
    by (rule foldl_f64_zero) (simp add: assms(1))
  then show ?thesis using assms(2,3) by (auto simp: f64_of_real_0 f64_of_real_1)
qed

lemma bottom_row_f64_iff:
  "bottom_row_f64 M \<longleftrightarrow>
     (\<exists>m n. shape M = [m, n] \<and> 0 < m \<and> 0 < n \<and>
            (\<forall>j<n. elem M [m - 1, j] = (if j = n - 1 then Fin 1 else Fin 0)))"
  by (auto simp: bottom_row_f64_def list_all_iff split: list.splits)

lemma as_f64_bottom_row:
  assumes "affine_bottom_row M"
  shows "bottom_row_f64 (as_f64 M)"
proof -
  from assms obtain m n where s: "shape M = [m, n]" and m: "0 < m" and n: "0 < n"
    and r: "\<And>j. j < n \<Longrightarrow> elem M [m - 1, j] = (if j = n - 1 then 1 else 0)"
    unfolding affine_bottom_row_iff by blast
  have "elem (as_f64 M) [m - 1, j] = (if j = n - 1 then Fin 1 else Fin 0)" if "j < n" for j
    using that m r[OF that]
    by (simp add: as_f64_def s elem_tabulate valid_index2 f64_of_real_0 f64_of_real_1)
  then show ?thesis
    unfolding bottom_row_f64_iff using s m n by (simp add: as_f64_def tabulate_def)
qed

lemma matmul_f64_InrD:
  assumes "matmul_f64 A B = Inr M" "shape A = [m, n]" "shape B = [n', p]"
  shows "n' = n \<and> M = tabulate [m, p]
           (\<lambda>ks. foldl (\<lambda>acc k. f64_add acc (f64_mult (elem A [ks ! 0, k]) (elem B [k, ks ! 1])))
                   (Fin 0) [0..<n])"
  using assms by (auto simp: matmul_f64_def split: if_splits)

lemma all_finite_elem:
  assumes "all_finite B" "shape B = [n, p]" "k < n" "j < p"
  shows "is_fin (elem B [k, j])"
proof -
  have "k * p + j < n * p"
  proof -
    have "k * p + j < k * p + p" using assms(4) by simp
    also have "\<dots> = Suc k * p" by simp
    also have "\<dots> \<le> n * p" using assms(3) by (intro mult_le_mono1) simp
    finally show ?thesis .
  qed
  then show ?thesis using assms(1,2)
    by (simp add: all_finite_def list_all_iff elem_def)
qed

lemma matmul_f64_bottom_row:
  assumes A: "bottom_row_f64 A" and B: "bottom_row_f64 B" and F: "all_finite B"
    and M: "matmul_f64 A B = Inr M"
  shows "bottom_row_f64 M"
proof -
  from A obtain m n where sa: "shape A = [m, n]" and m: "0 < m" and n: "0 < n"
    and ra: "\<And>k. k < n \<Longrightarrow> elem A [m - 1, k] = (if k = n - 1 then Fin 1 else Fin 0)"
    unfolding bottom_row_f64_iff by blast
  from B obtain n' p where sb: "shape B = [n', p]" and p: "0 < p"
    and rb: "\<And>j. j < p \<Longrightarrow> elem B [n' - 1, j] = (if j = p - 1 then Fin 1 else Fin 0)"
    unfolding bottom_row_f64_iff by blast
  from matmul_f64_InrD[OF M sa sb] have nn: "n' = n"
    and Md: "M = tabulate [m, p]
           (\<lambda>ks. foldl (\<lambda>acc k. f64_add acc (f64_mult (elem A [ks ! 0, k]) (elem B [k, ks ! 1])))
                   (Fin 0) [0..<n])" by simp_all
  obtain n1 where n1: "n = Suc n1" using n by (cases n) simp_all
  have "elem M [m - 1, j] = (if j = p - 1 then Fin 1 else Fin 0)" if j: "j < p" for j
  proof -
    let ?t = "\<lambda>k. f64_mult (elem A [m - 1, k]) (elem B [k, j])"
    have e: "elem M [m - 1, j] = foldl (\<lambda>acc k. f64_add acc (?t k)) (Fin 0) [0..<Suc n1]"
      using m j by (simp add: Md elem_tabulate valid_index2 n1)
    have z: "?t k = Fin 0" if "k < n1" for k
    proof -
      have "elem A [m - 1, k] = Fin 0" using ra[of k] that n1 by simp
      moreover have "is_fin (elem B [k, j])"
        using all_finite_elem[OF F sb[unfolded nn], of k j] that j n1 by simp
      ultimately show ?thesis by (simp add: f64_mult_zero_fin)
    qed
    have l: "?t n1 = (if j = p - 1 then Fin 1 else Fin 0)"
      using ra[of n1] rb[OF j] n1 nn by (simp add: f64_of_real_0 f64_of_real_1)
    show ?thesis
      unfolding e
    proof (rule foldl_f64_last[where t = ?t and n = n1])
      show "?t k = Fin 0" if "k < n1" for k by (rule z[OF that])
      show "?t n1 = (if j = p - 1 then Fin 1 else Fin 0)" by (rule l)
      show "(if j = p - 1 then Fin 1 else Fin 0) = Fin 0 \<or>
            (if j = p - 1 then Fin 1 else Fin 0) = Fin 1" by simp
    qed
  qed
  then show ?thesis
    unfolding bottom_row_f64_iff using m p by (simp add: Md tabulate_def)
qed


lemma create_scale_2: "create_scale 2 [a, b] = \<lparr>shape = [3, 3], data = [a, 0, 0, 0, b, 0, 0, 0, 1]\<rparr>"
  by code_simp

lemma create_translate_2:
  "create_translate 2 [a, b] = Inr \<lparr>shape = [3, 3], data = [1, 0, a, 0, 1, b, 0, 0, 1]\<rparr>"
  by code_simp

lemma as_f64_33:
  "as_f64 \<lparr>shape = [3, 3], data = [a, b, c, d, e, f, g, h, i]\<rparr> =
   \<lparr>shape = [3, 3], data = map f64_of_real [a, b, c, d, e, f, g, h, i]\<rparr>"
  by (simp add: as_f64_def tabulate_def elem_def upt_conv_Cons)

lemma matmul_f64_33:
  "matmul_f64 \<lparr>shape = [3, 3], data = [a0, a1, a2, a3, a4, a5, a6, a7, a8]\<rparr>
              \<lparr>shape = [3, 3], data = [b0, b1, b2, b3, b4, b5, b6, b7, b8]\<rparr> =
   Inr \<lparr>shape = [3, 3], data =
     [f64_add (f64_add (f64_add (Fin 0) (f64_mult a0 b0)) (f64_mult a1 b3)) (f64_mult a2 b6),
      f64_add (f64_add (f64_add (Fin 0) (f64_mult a0 b1)) (f64_mult a1 b4)) (f64_mult a2 b7),
      f64_add (f64_add (f64_add (Fin 0) (f64_mult a0 b2)) (f64_mult a1 b5)) (f64_mult a2 b8),
      f64_add (f64_add (f64_add (Fin 0) (f64_mult a3 b0)) (f64_mult a4 b3)) (f64_mult a5 b6),
      f64_add (f64_add (f64_add (Fin 0) (f64_mult a3 b1)) (f64_mult a4 b4)) (f64_mult a5 b7),
      f64_add (f64_add (f64_add (Fin 0) (f64_mult a3 b2)) (f64_mult a4 b5)) (f64_mult a5 b8),
      f64_add (f64_add (f64_add (Fin 0) (f64_mult a6 b0)) (f64_mult a7 b3)) (f64_mult a8 b6),
      f64_add (f64_add (f64_add (Fin 0) (f64_mult a6 b1)) (f64_mult a7 b4)) (f64_mult a8 b7),
      f64_add (f64_add (f64_add (Fin 0) (f64_mult a6 b2)) (f64_mult a7 b5)) (f64_mult a8 b8)]\<rparr>"
  by (simp add: matmul_f64_def tabulate_def elem_def upt_conv_Cons)


lemma fin_simps: "f64_of_real 0 = Fin 0" "f64_of_real 1 = Fin 1" "f64_of_real 5 = Fin 5"
  "f64_of_real 7 = Fin 7" "f64_of_real 2 = Fin 2" "f64_of_real 3 = Fin 3"
  by (simp_all add: f64_of_real_def f64_max_def)


text \<open>
  Claim C9, as the code has it. Every matrix returned by \<open>create_rotate\<close>, \<open>create_shear\<close>,
  \<open>create_scale\<close> or \<open>create_translate\<close> for finite arguments has the bottom row
  \<open>[0, ..., 0, 1]\<close>, and so has every float64 product \<open>A @ B\<close> of such matrices whose right
  factor \<open>B\<close> has only finite entries. The entries of the bottom row of the product are then
  sums of terms \<open>0 * b\<close> with \<open>b\<close> finite and of one term \<open>1 * 0\<close> or \<open>1 * 1\<close>, which float64
  computes exactly.
\<close>

theorem finite_builder_matrix_bottom_row:
  assumes "finite_builder_matrix M"
  shows "bottom_row_f64 M"
  using assms
proof (induction rule: finite_builder_matrix.induct)
  case (rotate spatial_dims radians M)
  then show ?case by (intro as_f64_bottom_row create_rotate_bottom_row)
next
  case (shear spatial_dims coefs M)
  then show ?case by (intro as_f64_bottom_row create_shear_bottom_row)
next
  case (scale spatial_dims scaling_factor M)
  then show ?case using as_f64_bottom_row[OF create_scale_bottom_row] by blast
next
  case (translate spatial_dims shift M)
  then show ?case by (intro as_f64_bottom_row create_translate_bottom_row)
next
  case (product A B M)
  then show ?case using matmul_f64_bottom_row by blast
qed

theorem finite_builder_matrix_bottom_row_witness:
  "finite_builder_matrix
     \<lparr>shape = [3, 3], data = [Fin 2, Fin 0, Fin 5, Fin 0, Fin 3, Fin 7, Fin 0, Fin 0, Fin 1]\<rparr> \<and>
   bottom_row_f64
     \<lparr>shape = [3, 3], data = [Fin 2, Fin 0, Fin 5, Fin 0, Fin 3, Fin 7, Fin 0, Fin 0, Fin 1]\<rparr>"
proof -
  let ?T = "\<lparr>shape = [3, 3], data = [Fin 1, Fin 0, Fin 5, Fin 0, Fin 1, Fin 7, Fin 0, Fin 0, Fin 1]\<rparr>"
  let ?S = "\<lparr>shape = [3, 3], data = [Fin 2, Fin 0, Fin 0, Fin 0, Fin 3, Fin 0, Fin 0, Fin 0, Fin 1]\<rparr>"
  let ?M = "\<lparr>shape = [3, 3], data = [Fin 2, Fin 0, Fin 5, Fin 0, Fin 3, Fin 7, Fin 0, Fin 0, Fin 1]\<rparr>"
  have t: "finite_builder_matrix ?T"
    using finite_builder_matrix.translate[OF _ create_translate_2[of 5 7]]
    by (simp add: as_f64_33 fin_simps)
  have s: "finite_builder_matrix ?S"
    using finite_builder_matrix.scale[OF create_scale_2[of 2 3]]
    by (simp add: as_f64_33 fin_simps)
  have f: "all_finite ?S"
    by (simp add: all_finite_def upt_conv_Cons)
  have m: "matmul_f64 ?T ?S = Inr ?M"
    by (simp add: matmul_f64_33 f64_of_real_def f64_max_def)
  have b: "finite_builder_matrix ?M"
    by (rule finite_builder_matrix.product[OF t s f m])
  from finite_builder_matrix_bottom_row[OF b] b show ?thesis by simp
qed


text \<open>
  Without the finiteness of the right factor the claim fails on finite arguments: with
  \<open>S = create_scale(2, [1e308, 1.])\<close> the product \<open>S @ S\<close> overflows to \<open>inf\<close> in its first entry,
  and in \<open>create_translate(2, [5., 7.]) @ (S @ S)\<close> the zero of the bottom row meets that
  infinity: the bottom row is \<open>[nan, 0, 1]\<close>.
\<close>

theorem builder_matrix_overflow_counterexample:
  "builder_matrix
     \<lparr>shape = [3, 3], data = [PosInf, Fin 0, Fin 5, NaN, Fin 1, Fin 7, NaN, Fin 0, Fin 1]\<rparr> \<and>
   \<not> bottom_row_f64
     \<lparr>shape = [3, 3], data = [PosInf, Fin 0, Fin 5, NaN, Fin 1, Fin 7, NaN, Fin 0, Fin 1]\<rparr>"
proof -
  let ?T = "\<lparr>shape = [3, 3], data = [Fin 1, Fin 0, Fin 5, Fin 0, Fin 1, Fin 7, Fin 0, Fin 0, Fin 1]\<rparr>"
  let ?S = "\<lparr>shape = [3, 3],
             data = [Fin (10 ^ 308), Fin 0, Fin 0, Fin 0, Fin 1, Fin 0, Fin 0, Fin 0, Fin 1]\<rparr>"
  let ?SS = "\<lparr>shape = [3, 3], data = [PosInf, Fin 0, Fin 0, Fin 0, Fin 1, Fin 0, Fin 0, Fin 0, Fin 1]\<rparr>"
  let ?X = "\<lparr>shape = [3, 3], data = [PosInf, Fin 0, Fin 5, NaN, Fin 1, Fin 7, NaN, Fin 0, Fin 1]\<rparr>"
  have t: "builder_matrix ?T"
    using builder_matrix.translate[OF _ create_translate_2[of 5 7]]
    by (simp add: as_f64_33 fin_simps)
  have s: "builder_matrix ?S"
    using builder_matrix.scale[OF create_scale_2[of "10 ^ 308" 1]]
    by (simp add: as_f64_33 f64_of_real_def f64_max_def)
  have ss: "matmul_f64 ?S ?S = Inr ?SS"
    by (simp add: matmul_f64_33 f64_of_real_def f64_max_def)
  have x: "matmul_f64 ?T ?SS = Inr ?X"
    by (simp add: matmul_f64_33 fin_simps)
  have b: "builder_matrix ?X"
    by (rule builder_matrix.product[OF t builder_matrix.product[OF s s ss] x])
  have "\<not> bottom_row_f64 ?X"
    by (simp add: bottom_row_f64_def elem_def upt_conv_Cons)
  with b show ?thesis by simp
qed

text \<open>
  Claim C8. For every \<open>3 \<times> 3\<close> matrix \<open>M\<close>, \<open>to_affine_nd(3, to_affine_nd(2, M))\<close> succeeds and
  is the \<open>4 \<times> 4\<close> matrix whose top-left \<open>2 \<times> 2\<close> block is that of \<open>M\<close>, whose last column
  starts with the first two entries of the last column of \<open>M\<close>, and whose third row and
  third column are those of the identity (so the translation along the third axis is
  zero); its bottom row is \<open>[0, 0, 0, 1]\<close>.
\<close>

theorem to_affine_nd_2_3:
  assumes sh: "shape M = [3, 3]" and wf: "wf_array M"
  shows "bind_err (to_affine_nd (np_scalar 2) M) (to_affine_nd (np_scalar 3)) =
         Inr (np_array [[elem M [0, 0], elem M [0, 1], 0, elem M [0, 2]],
                        [elem M [1, 0], elem M [1, 1], 0, elem M [1, 2]],
                        [0, 0, 1, 0],
                        [0, 0, 0, 1]])"
proof -
  from wf sh have "length (data M) = 9" by (simp add: wf_array_def)
  then obtain a b c d e f g h i where dt: "data M = [a, b, c, d, e, f, g, h, i]"
    by (auto simp: length_Suc_conv eval_nat_numeral)
  have M: "M = \<lparr>shape = [3, 3], data = [a, b, c, d, e, f, g, h, i]\<rparr>"
    using sh dt by (cases M) simp
  show ?thesis unfolding M
    by code_simp
qed

theorem to_affine_nd_2_3_witness:
  "wf_array \<lparr>shape = [3, 3], data = [1, 2, 3, 4, 5, 6, 7, 8, 9::real]\<rparr> \<and>
   bind_err (to_affine_nd (np_scalar 2) \<lparr>shape = [3, 3], data = [1, 2, 3, 4, 5, 6, 7, 8, 9]\<rparr>)
     (to_affine_nd (np_scalar 3)) =
   Inr \<lparr>shape = [4, 4], data = [1, 2, 0, 3, 4, 5, 0, 6, 0, 0, 1, 0, 0, 0, 0, 1]\<rparr>"
  using to_affine_nd_2_3[of "\<lparr>shape = [3, 3], data = [1, 2, 3, 4, 5, 6, 7, 8, 9::real]\<rparr>"]
  by (simp add: wf_array_def elem_def np_array_def)

end
